theory Spec2Isabelle
  imports Complex_Main "HOL-Library.Word"
begin

unbundle bit_operations_syntax

section \<open>JavaScript values used by the codec\<close>

text \<open>
  A JavaScript number is a double. Every finite double is a rational, and the only
  arithmetic the codec performs (times 2, divided by 2, times 5, plus 2000, minus 7) is
  exact on the values it meets, so a finite number is modelled by the rational it denotes;
  the three non-finite doubles are constructors of their own. Doubling a finite double is
  exact unless it overflows to Infinity; such a double is a multiple of \<open>2 ^ 971\<close>, so its
  exact double is 0 modulo 256, which is also what \<open>ToUint8\<close> makes of Infinity.
\<close>

datatype jsnum = NaN | PosInfinity | NegInfinity | Num rat

type_synonym u8 = "8 word"

text \<open>\<open>x op c\<close> for a finite positive literal \<open>c\<close>: NaN and the infinities are kept.\<close>

definition js_mul :: "jsnum \<Rightarrow> rat \<Rightarrow> jsnum" where
  "js_mul x c = (case x of Num r \<Rightarrow> Num (r * c) | other \<Rightarrow> other)"

definition js_div :: "jsnum \<Rightarrow> rat \<Rightarrow> jsnum" where
  "js_div x c = (case x of Num r \<Rightarrow> Num (r / c) | other \<Rightarrow> other)"

definition js_add :: "jsnum \<Rightarrow> rat \<Rightarrow> jsnum" where
  "js_add x c = (case x of Num r \<Rightarrow> Num (r + c) | other \<Rightarrow> other)"

definition js_sub :: "jsnum \<Rightarrow> rat \<Rightarrow> jsnum" where
  "js_sub x c = (case x of Num r \<Rightarrow> Num (r - c) | other \<Rightarrow> other)"

text \<open>Truncation towards zero, the first step of the integer conversions.\<close>

definition js_trunc :: "rat \<Rightarrow> int" where
  "js_trunc r = (if r < 0 then - \<lfloor>- r\<rfloor> else \<lfloor>r\<rfloor>)"

text \<open>
  \<open>ToUint8\<close>, applied when a number is stored into a \<open>Buffer\<close> (a \<open>Uint8Array\<close>):
  NaN and the infinities give 0, a finite number is truncated and taken modulo 256.
\<close>

definition ToUint8 :: "jsnum \<Rightarrow> u8" where
  "ToUint8 x = (case x of Num r \<Rightarrow> word_of_int (js_trunc r) | _ \<Rightarrow> 0)"

text \<open>\<open>ToUint16\<close>, applied by \<open>String.fromCharCode\<close>; the result is a UTF-16 code unit.\<close>

definition ToUint16 :: "jsnum \<Rightarrow> nat" where
  "ToUint16 x = (case x of Num r \<Rightarrow> nat (js_trunc r mod 65536) | _ \<Rightarrow> 0)"

text \<open>\<open>data[i]\<close> on a Buffer: the byte, or \<open>undefined\<close> (\<open>None\<close>) past the end.\<close>

definition byte_at :: "u8 list \<Rightarrow> nat \<Rightarrow> u8 option" where
  "byte_at data i = (if i < length data then Some (data ! i) else None)"

text \<open>\<open>ToNumber\<close> of such a read: \<open>undefined\<close> becomes NaN.\<close>

definition js_num :: "u8 option \<Rightarrow> jsnum" where
  "js_num v = (case v of None \<Rightarrow> NaN | Some b \<Rightarrow> Num (of_nat (unat b)))"

text \<open>\<open>v & m\<close>: \<open>undefined\<close> converts to 0.\<close>

definition js_band :: "u8 option \<Rightarrow> u8 \<Rightarrow> u8" where
  "js_band v m = (case v of None \<Rightarrow> 0 | Some b \<Rightarrow> b AND m)"

section \<open>Device identity\<close>

text \<open>
  \<open>String.prototype.toLowerCase\<close> on one character. A \<open>char\<close> is read as the code
  unit of the same number (0 to 255): the upper-case letters in that range are A to Z and
  the Latin-1 letters 0xC0 to 0xDE without the multiplication sign 0xD7, each 32 below its
  lower-case form.
\<close>

definition upper_code :: "nat \<Rightarrow> bool" where
  "upper_code n = ((65 \<le> n \<and> n \<le> 90) \<or> (192 \<le> n \<and> n \<le> 222 \<and> n \<noteq> 215))"

definition toLowerCase_char :: "char \<Rightarrow> char" where
  "toLowerCase_char c =
     (if upper_code (of_char c) then char_of (of_char c + 32 :: nat) else c)"

definition toLowerCase :: "string \<Rightarrow> string" where
  "toLowerCase s = map toLowerCase_char s"

text \<open>\<open>address.replace(/-/g, ':')\<close>: every hyphen becomes a colon.\<close>

definition replace_hyphens :: "string \<Rightarrow> string" where
  "replace_hyphens s = map (\<lambda>c. if c = CHR ''-'' then CHR '':'' else c) s"

definition normaliseAddress :: "string \<Rightarrow> string" where
  "normaliseAddress address = toLowerCase (replace_hyphens address)"

section \<open>Protocol codec\<close>

subsection \<open>Commands\<close>

text \<open>\<open>Buffer.of(...)\<close> stores each item with \<open>ToUint8\<close>.\<close>

definition Buffer_of :: "jsnum list \<Rightarrow> u8 list" where
  "Buffer_of items = map ToUint8 items"

text \<open>The buffer \<open>setTargetTemperature\<close> hands to \<open>_sendCommand\<close>.\<close>

definition setTargetTemperature :: "jsnum \<Rightarrow> u8 list" where
  "setTargetTemperature temperature = Buffer_of [Num 65, js_mul temperature 2]"

definition getInfo :: "u8 list" where
  "getInfo = Buffer_of [Num 0]"

definition setComfortTemperature :: "u8 list" where
  "setComfortTemperature = Buffer_of [Num 67]"

definition setEcoTemperature :: "u8 list" where
  "setEcoTemperature = Buffer_of [Num 68]"

definition setBoost :: "bool \<Rightarrow> u8 list" where
  "setBoost isBoost = Buffer_of [Num 69, if isBoost then Num 1 else Num 0]"

subsection \<open>Notifications\<close>

record away_t =
  day :: "u8 option"
  year :: jsnum
  minute :: nat
  hour :: jsnum
  month :: "u8 option"

record window_t =
  temp :: jsnum
  time :: jsnum

record status_t =
  mode :: u8
  isBoost :: bool
  isDst :: bool
  isWindowOpen :: bool
  isLocked :: bool
  isLowBattery :: bool
  valve :: "u8 option"
  targetTemp :: jsnum
  away :: "away_t option"
  windowOpen :: window_t
  comfortTemp :: jsnum
  ecoTemp :: jsnum
  tempOffset :: jsnum

text \<open>
  \<open>_parseStatus\<close> starts from the empty object and fills it only for sub-type 1; the
  other branch prints \<open>unknown status\<close> on the console and returns the object empty.
  The second component is what the call printed.
\<close>

datatype parsed_status = EmptyObject | StatusRecord status_t

definition parseStatus :: "u8 list \<Rightarrow> parsed_status \<times> string list" where
  "parseStatus data =
     (let infoType = js_band (byte_at data 1) 15
      in if infoType = 1 then
           (StatusRecord \<lparr>
              mode = js_band (byte_at data 2) 3,
              isBoost = (js_band (byte_at data 2) 4 \<noteq> 0),
              isDst = (js_band (byte_at data 2) 8 \<noteq> 0),
              isWindowOpen = (js_band (byte_at data 2) 16 \<noteq> 0),
              isLocked = (js_band (byte_at data 2) 32 \<noteq> 0),
              isLowBattery = (js_band (byte_at data 2) 128 \<noteq> 0),
              valve = byte_at data 3,
              targetTemp = js_div (js_num (byte_at data 5)) 2,
              away =
                (if js_band (byte_at data 2) 2 \<noteq> 0 then
                   Some \<lparr>
                     day = byte_at data 6,
                     year = js_add (js_num (byte_at data 7)) 2000,
                     minute = (if js_band (byte_at data 8) 1 \<noteq> 0 then 30 else 0),
                     hour = js_div (js_num (byte_at data 8)) 2,
                     month = byte_at data 9 \<rparr>
                 else None),
              windowOpen = \<lparr>
                temp = js_div (js_num (byte_at data 10)) 2,
                time = js_mul (js_num (byte_at data 11)) 5 \<rparr>,
              comfortTemp = js_div (js_num (byte_at data 12)) 2,
              ecoTemp = js_div (js_num (byte_at data 13)) 2,
              tempOffset = js_div (js_sub (js_num (byte_at data 14)) 7) 2 \<rparr>,
            [])
         else (EmptyObject, [''unknown status'']))"

record info_t =
  version :: "u8 option"
  serial :: "nat list"

text \<open>The serial is ten UTF-16 code units, \<open>String.fromCharCode(data[n] - 0x30)\<close> each.\<close>

definition parseInfo :: "u8 list \<Rightarrow> info_t" where
  "parseInfo data =
     \<lparr> version = byte_at data 1,
       serial = map (\<lambda>n. ToUint16 (js_sub (js_num (byte_at data n)) 48)) [4..<14] \<rparr>"

section \<open>Device session\<close>

subsection \<open>Promises, timers and listeners\<close>

text \<open>
  Every bounded operation is \<open>timeout(10000, f)\<close>: a promise made by \<open>f\<close> raced
  against a timer that rejects. The pair is one cell here: whoever settles a pending cell
  first wins, a later \<open>resolve\<close> or \<open>reject\<close> changes nothing. A cell also records the
  one \<open>await\<close> of the module that waits on it, if there is one, with what its
  continuation needs; the continuation runs when the cell is settled.

  Time is the session's \<open>clock\<close>, in milliseconds. A timer is the cell it rejects
  together with its deadline, the clock at \<open>setTimeout\<close> plus the delay; \<open>timers\<close>
  holds the timers that have not run yet, in the order they were set.
\<close>

datatype reason = Timeout int | AdapterError string | NoReason | ThrownTypeError

datatype payload = NoValue | VersionInfo info_t | StatusInfo parsed_status

datatype promise = Pending | Fulfilled payload | Rejected reason

datatype awaiter =
    NoAwaiter
  | SendCommand nat "u8 list" string
  | CommandWrite nat
  | ConnectHandler nat

record cell =
  cell_state :: promise
  cell_awaiter :: awaiter

text \<open>
  The adapter (noble) keeps a peripheral's \<open>state\<close>: \<open>connect()\<close> makes it
  \<open>connecting\<close>, the \<open>connect\<close> event comes with \<open>connected\<close> or, with an error,
  \<open>error\<close>; \<open>disconnect()\<close> makes it \<open>disconnecting\<close>, the \<open>disconnect\<close> event
  comes with \<open>disconnected\<close>.
\<close>

datatype pstate = Disconnected | Connecting | Connected | Disconnecting | PError

datatype adapter_call =
    Call_connect
  | Call_disconnect
  | Call_discoverAllServicesAndCharacteristics
  | Call_subscribe
  | Call_write "u8 list"

datatype log_line = Console_buffer "u8 list" | Console_text string | Debug_text string

record session =
  pstate :: pstate
  isConnected :: bool
  have_dataCharacteristic :: bool
  have_commandCharacteristic :: bool
  connect_once :: "nat list"
  disconnect_once :: "nat list"
  data_handlers :: nat
  dataEvents :: "(string \<times> nat) list"
  cells :: "cell list"
  clock :: int
  timers :: "(nat \<times> int) list"
  pending_discover :: "nat list"
  pending_subscribe :: "nat list"
  pending_write :: "nat list"
  adapter_calls :: "adapter_call list"
  logged :: "log_line list"

text \<open>The constructor, for a peripheral in the given adapter state.\<close>

definition new_session :: "pstate \<Rightarrow> session" where
  "new_session st =
     \<lparr> pstate = st, isConnected = False,
       have_dataCharacteristic = False, have_commandCharacteristic = False,
       connect_once = [], disconnect_once = [], data_handlers = 0, dataEvents = [],
       cells = [], clock = 0, timers = [], pending_discover = [], pending_subscribe = [],
       pending_write = [], adapter_calls = [], logged = [] \<rparr>"

definition timeout_ms :: int where
  "timeout_ms = 10000"

definition new_cell :: "awaiter \<Rightarrow> session \<Rightarrow> nat \<times> session" where
  "new_cell a s =
     (length (cells s), s\<lparr>cells := cells s @ [\<lparr>cell_state = Pending, cell_awaiter = a\<rparr>]\<rparr>)"

definition set_timer :: "nat \<Rightarrow> session \<Rightarrow> session" where
  "set_timer c s = s\<lparr>timers := timers s @ [(c, clock s + timeout_ms)]\<rparr>"

definition is_pending :: "nat \<Rightarrow> session \<Rightarrow> bool" where
  "is_pending c s = (c < length (cells s) \<and> cell_state (cells s ! c) = Pending)"

definition put :: "nat \<Rightarrow> promise \<Rightarrow> session \<Rightarrow> session" where
  "put c p s = s\<lparr>cells := (cells s)[c := (cells s ! c)\<lparr>cell_state := p\<rparr>]\<rparr>"

text \<open>A cell nothing in the module waits on: a command's, a \<open>disconnect()\<close>'s.\<close>

definition settle_plain :: "nat \<Rightarrow> promise \<Rightarrow> session \<Rightarrow> session" where
  "settle_plain c p s = (if is_pending c s then put c p s else s)"

subsection \<open>Writing a command\<close>

text \<open>
  \<open>_sendCommand\<close> after \<open>await this._writeCharacteristic(...)\<close>: a rejection goes to
  the \<open>catch\<close>, which rejects the command.
\<close>

definition after_write :: "nat \<Rightarrow> session \<Rightarrow> session" where
  "after_write w s =
     (case (cell_awaiter (cells s ! w), cell_state (cells s ! w)) of
        (CommandWrite cmd, Rejected r) \<Rightarrow> settle_plain cmd (Rejected r) s
      | _ \<Rightarrow> s)"

definition settle_write :: "nat \<Rightarrow> promise \<Rightarrow> session \<Rightarrow> session" where
  "settle_write w p s = (if is_pending w s then after_write w (put w p s) else s)"

text \<open>
  \<open>_writeCharacteristic(this._commandCharacteristic, data)\<close>, called by the command
  \<open>cmd\<close>. With the characteristic still \<open>undefined\<close> the call of \<open>write\<close> throws a
  TypeError inside the \<open>try\<close>, and the promise is rejected at once.
\<close>

definition writeCharacteristic :: "nat \<Rightarrow> u8 list \<Rightarrow> session \<Rightarrow> session" where
  "writeCharacteristic cmd data s =
     (let (w, s1) = new_cell (CommandWrite cmd) s;
          s2 = (if have_commandCharacteristic s1
                then s1\<lparr>adapter_calls := adapter_calls s1 @ [Call_write data],
                        pending_write := pending_write s1 @ [w]\<rparr>
                else put w (Rejected ThrownTypeError) s1)
      in after_write w (set_timer w s2))"

subsection \<open>Connecting\<close>

text \<open>
  \<open>_sendCommand\<close> after \<open>await this.connect()\<close>: register the single-shot listener
  for the reply, then write; a rejection goes to the \<open>catch\<close>.
\<close>

definition after_connect :: "nat \<Rightarrow> session \<Rightarrow> session" where
  "after_connect cc s =
     (case cell_awaiter (cells s ! cc) of
        SendCommand cmd buffer event \<Rightarrow>
          (case cell_state (cells s ! cc) of
             Fulfilled _ \<Rightarrow>
               writeCharacteristic cmd buffer (s\<lparr>dataEvents := dataEvents s @ [(event, cmd)]\<rparr>)
           | Rejected r \<Rightarrow> settle_plain cmd (Rejected r) s
           | Pending \<Rightarrow> s)
      | _ \<Rightarrow> s)"

definition settle_connect :: "nat \<Rightarrow> promise \<Rightarrow> session \<Rightarrow> session" where
  "settle_connect cc p s = (if is_pending cc s then after_connect cc (put cc p s) else s)"

text \<open>
  The body of \<open>connect()\<close> up to the point where the timer is set; the continuation of
  whoever awaits it runs later.
\<close>

definition connect_exec :: "awaiter \<Rightarrow> session \<Rightarrow> nat \<times> session" where
  "connect_exec a s =
     (let (cc, s1) = new_cell a s;
          s2 = (if pstate s1 = Connected then put cc (Fulfilled NoValue) s1
                else s1\<lparr>connect_once := connect_once s1 @ [cc],
                        adapter_calls := adapter_calls s1 @ [Call_connect],
                        pstate := Connecting\<rparr>)
      in (cc, set_timer cc s2))"

definition connect :: "session \<Rightarrow> nat \<times> session" where
  "connect s = connect_exec NoAwaiter s"

text \<open>
  The \<open>connect\<close> handler after \<open>await this._resolveCharacteristics()\<close>: register the
  data handler and subscribe. With the data characteristic \<open>undefined\<close> the
  registration throws a TypeError, which the \<open>catch\<close> turns into a rejection.
\<close>

definition after_resolve :: "nat \<Rightarrow> session \<Rightarrow> session" where
  "after_resolve rc s =
     (case cell_awaiter (cells s ! rc) of
        ConnectHandler cc \<Rightarrow>
          (case cell_state (cells s ! rc) of
             Fulfilled _ \<Rightarrow>
               (if have_dataCharacteristic s
                then s\<lparr>data_handlers := data_handlers s + 1,
                       adapter_calls := adapter_calls s @ [Call_subscribe],
                       pending_subscribe := pending_subscribe s @ [cc]\<rparr>
                else settle_connect cc (Rejected ThrownTypeError) s)
           | Rejected r \<Rightarrow> settle_connect cc (Rejected r) s
           | Pending \<Rightarrow> s)
      | _ \<Rightarrow> s)"

definition settle_resolve :: "nat \<Rightarrow> promise \<Rightarrow> session \<Rightarrow> session" where
  "settle_resolve rc p s = (if is_pending rc s then after_resolve rc (put rc p s) else s)"

text \<open>Settling any cell: by what waits on it.\<close>

definition settle :: "nat \<Rightarrow> promise \<Rightarrow> session \<Rightarrow> session" where
  "settle c p s =
     (if c < length (cells s) then
        (case cell_awaiter (cells s ! c) of
           NoAwaiter \<Rightarrow> settle_plain c p s
         | CommandWrite _ \<Rightarrow> settle_write c p s
         | SendCommand _ _ _ \<Rightarrow> settle_connect c p s
         | ConnectHandler _ \<Rightarrow> settle_resolve c p s)
      else s)"

text \<open>\<open>_resolveCharacteristics()\<close>, called by the \<open>connect\<close> handler of \<open>cc\<close>.\<close>

definition resolveCharacteristics :: "nat \<Rightarrow> session \<Rightarrow> session" where
  "resolveCharacteristics cc s =
     (let (rc, s1) = new_cell (ConnectHandler cc) s
      in set_timer rc
           (s1\<lparr>adapter_calls := adapter_calls s1 @ [Call_discoverAllServicesAndCharacteristics],
               pending_discover := pending_discover s1 @ [rc]\<rparr>))"

definition disconnect :: "session \<Rightarrow> nat \<times> session" where
  "disconnect s =
     (let (d, s1) = new_cell NoAwaiter s;
          s2 = (if pstate s1 = Disconnected then put d (Fulfilled NoValue) s1
                else s1\<lparr>disconnect_once := disconnect_once s1 @ [d],
                        adapter_calls := adapter_calls s1 @ [Call_disconnect],
                        pstate := Disconnecting\<rparr>)
      in (d, set_timer d s2))"

subsection \<open>Commands\<close>

text \<open>
  \<open>_sendCommand(buffer, event)\<close>: the command's promise, \<open>connect()\<close> inside it, the
  command's timer, and then, if \<open>connect()\<close> is already settled, the rest of the body.
\<close>

definition sendCommand :: "u8 list \<Rightarrow> string \<Rightarrow> session \<Rightarrow> nat \<times> session" where
  "sendCommand buffer event s =
     (let (cmd, s1) = new_cell NoAwaiter s;
          (cc, s2) = connect_exec (SendCommand cmd buffer event) s1
      in (cmd, after_connect cc (set_timer cmd s2)))"

text \<open>
  \<open>getStatus\<close> sends the clock: year, month (from 0), day, hours, minutes, seconds as
  \<open>Date\<close> gives them.
\<close>

definition getStatus_buffer :: "nat \<Rightarrow> nat \<Rightarrow> nat \<Rightarrow> nat \<Rightarrow> nat \<Rightarrow> nat \<Rightarrow> u8 list" where
  "getStatus_buffer fullYear month0 date hours minutes seconds =
     [3, of_nat (fullYear mod 100), of_nat (month0 + 1), of_nat date,
      of_nat hours, of_nat minutes, of_nat seconds]"

subsection \<open>Notifications and adapter events\<close>

text \<open>
  \<open>this._dataEvents.emit(event, v)\<close>: every listener registered for the event is
  single-shot, so each is removed and called, in the order of registration.
\<close>

definition emit :: "string \<Rightarrow> payload \<Rightarrow> session \<Rightarrow> session" where
  "emit event v s =
     fold (\<lambda>l. settle (snd l) (Fulfilled v))
       (filter (\<lambda>l. fst l = event) (dataEvents s))
       (s\<lparr>dataEvents := filter (\<lambda>l. fst l \<noteq> event) (dataEvents s)\<rparr>)"

definition log :: "log_line list \<Rightarrow> session \<Rightarrow> session" where
  "log ls s = s\<lparr>logged := logged s @ ls\<rparr>"

definition dataHandler :: "u8 list \<Rightarrow> session \<Rightarrow> session" where
  "dataHandler data s =
     (let s1 = log [Console_buffer data] s
      in case byte_at data 0 of
           Some cmdCode \<Rightarrow>
             (if cmdCode = 1 then
                emit ''version'' (VersionInfo (parseInfo data))
                  (log [Debug_text ''received version message''] s1)
              else if cmdCode = 2 then
                (let (r, out) = parseStatus data
                 in emit ''status'' (StatusInfo r)
                      (log (Debug_text ''received status message'' # map Console_text out) s1))
              else log [Debug_text ''unknown code''] s1)
         | None \<Rightarrow> log [Debug_text ''unknown code''] s1)"

datatype service = NoService | Service bool bool

datatype event =
    AdapterConnect "string option"
  | AdapterDisconnect "string option"
  | ServicesDiscovered nat "string option" service
  | Subscribed nat "string option"
  | Written nat "string option"
  | Notify "u8 list"
  | Elapse int

text \<open>
  One event of the adapter, or the passing of time. \<open>ServicesDiscovered\<close> is the
  callback of \<open>discoverAllServicesAndCharacteristics\<close>: without an error it looks the
  service up and, in it, the two characteristics (\<open>Service d c\<close>: whether each was
  found); when the service itself is missing the callback throws before it settles
  anything. \<open>data_handlers\<close> counts the \<open>data\<close> handlers the session has registered on
  its data characteristic: every \<open>connect\<close> handler that gets that far adds one, and
  each of them runs on a notification. The callback of \<open>write\<close> rejects with no reason.

  \<open>Elapse d\<close>: \<open>d\<close> milliseconds pass with no event of the adapter (a negative
  \<open>d\<close> is no time at all). Every timer
  whose deadline is reached by then runs, in the order the timers were set (which is the
  order of their deadlines), and rejects its cell with the timeout; the other timers stay.
  A timer is taken to run when its delay has elapsed, not later.
\<close>

definition step :: "event \<Rightarrow> session \<Rightarrow> session" where
  "step e s =
     (case e of
        AdapterConnect err \<Rightarrow>
          (let s1 = s\<lparr>pstate := (if err = None then Connected else PError),
                      isConnected := (if err = None then True else isConnected s),
                      connect_once := []\<rparr>
           in fold resolveCharacteristics (connect_once s) s1)
      | AdapterDisconnect err \<Rightarrow>
          (let s1 = s\<lparr>pstate := Disconnected,
                      isConnected := (if err = None then False else isConnected s),
                      disconnect_once := []\<rparr>
           in fold (\<lambda>d. settle d (Fulfilled NoValue)) (disconnect_once s) s1)
      | ServicesDiscovered rc err svc \<Rightarrow>
          (if rc \<in> set (pending_discover s) then
             (let s1 = s\<lparr>pending_discover := removeAll rc (pending_discover s)\<rparr>
              in case err of
                   Some x \<Rightarrow> settle rc (Rejected (AdapterError x)) s1
                 | None \<Rightarrow>
                     (case svc of
                        NoService \<Rightarrow> s1
                      | Service d c \<Rightarrow>
                          settle rc (Fulfilled NoValue)
                            (s1\<lparr>have_dataCharacteristic := d,
                                have_commandCharacteristic := c\<rparr>)))
           else s)
      | Subscribed cc err \<Rightarrow>
          (if cc \<in> set (pending_subscribe s) then
             (let s1 = s\<lparr>pending_subscribe := removeAll cc (pending_subscribe s)\<rparr>
              in case err of
                   Some x \<Rightarrow> settle cc (Rejected (AdapterError x)) s1
                 | None \<Rightarrow> settle cc (Fulfilled NoValue) s1)
           else s)
      | Written w err \<Rightarrow>
          (if w \<in> set (pending_write s) then
             (let s1 = s\<lparr>pending_write := removeAll w (pending_write s)\<rparr>
              in case err of
                   Some x \<Rightarrow> settle w (Rejected NoReason) s1
                 | None \<Rightarrow> settle w (Fulfilled NoValue) s1)
           else s)
      | Notify data \<Rightarrow> ((dataHandler data) ^^ (data_handlers s)) s
      | Elapse d \<Rightarrow>
          (let now = clock s + max 0 d
           in fold (\<lambda>t. settle (fst t) (Rejected (Timeout timeout_ms)))
                (filter (\<lambda>t. snd t \<le> now) (timers s))
                (s\<lparr>clock := now, timers := filter (\<lambda>t. now < snd t) (timers s)\<rparr>)))"

definition run :: "event list \<Rightarrow> session \<Rightarrow> session" where
  "run es s = fold step es s"

section \<open>Discovery engine\<close>

subsection \<open>Configuration values\<close>

text \<open>
  The values a caller can put into the configuration object. An array is a reference into
  the store of arrays, so that what \<open>discover\<close> writes into the caller's array is seen
  by the caller.
\<close>

datatype jsvalue =
    JUndefined
  | JNull
  | JBoolean bool
  | JNumber jsnum
  | JString string
  | JArray nat
  | JObject

record options =
  duration :: jsvalue
  addresses :: jsvalue
  ignoreUnknown :: jsvalue

text \<open>
  \<open>getOpt(options, value, def)\<close>. \<open>None\<close> is a missing, \<open>undefined\<close> or \<open>null\<close>
  argument; a property that is not there reads as \<open>JUndefined\<close>.
\<close>

definition getOpt :: "options option \<Rightarrow> (options \<Rightarrow> jsvalue) \<Rightarrow> jsvalue \<Rightarrow> jsvalue" where
  "getOpt opts sel def =
     (case opts of
        None \<Rightarrow> def
      | Some obj \<Rightarrow> if sel obj \<noteq> JUndefined then sel obj else def)"

text \<open>
  \<open>ToNumber\<close>, which the global \<open>isNaN\<close> applies to its argument. What a string, an
  array or an object converts to is decided by the language (the grammar of numeric
  strings, \<open>ToPrimitive\<close>), not by this program: it is the parameter \<open>conv\<close>.
\<close>

definition ToNumber :: "(jsvalue \<Rightarrow> jsnum) \<Rightarrow> jsvalue \<Rightarrow> jsnum" where
  "ToNumber conv v =
     (case v of
        JUndefined \<Rightarrow> NaN
      | JNull \<Rightarrow> Num 0
      | JBoolean b \<Rightarrow> Num (if b then 1 else 0)
      | JNumber n \<Rightarrow> n
      | _ \<Rightarrow> conv v)"

definition isNaN :: "(jsvalue \<Rightarrow> jsnum) \<Rightarrow> jsvalue \<Rightarrow> bool" where
  "isNaN conv v = (ToNumber conv v = NaN)"

datatype error = TypeError string | NativeTypeError

text \<open>
  \<open>optAddresses.forEach((address, idx) => { optAddresses[idx] = normaliseAddress(address) })\<close>
  on the entries of the array. An entry that is not a string has no \<open>replace\<close> method, so
  the call throws a TypeError of the engine's; the entries before it are already replaced.
\<close>

fun forEach_normalise :: "jsvalue list \<Rightarrow> error option \<times> jsvalue list" where
  "forEach_normalise [] = (None, [])"
| "forEach_normalise (JString a # xs) =
     (let (e, ys) = forEach_normalise xs in (e, JString (normaliseAddress a) # ys))"
| "forEach_normalise (x # xs) = (Some NativeTypeError, x # xs)"

fun the_string :: "jsvalue \<Rightarrow> string" where
  "the_string (JString a) = a"
| "the_string _ = []"

subsection \<open>The engine's state\<close>

record peripheral =
  p_address :: string
  p_localName :: "string option"
  p_serviceUuids :: "string list"

text \<open>What the \<open>CcrtbleDevice\<close> constructor takes from the peripheral.\<close>

record device =
  d_name :: "string option"
  d_address :: string
  d_isConnected :: bool

definition new_device :: "peripheral \<Rightarrow> device" where
  "new_device p =
     \<lparr> d_name = p_localName p, d_address = normaliseAddress (p_address p),
       d_isConnected = False \<rparr>"

definition UUID_SERVICE_CCRTBLE :: string where
  "UUID_SERVICE_CCRTBLE = ''3e135142654f9090134aa6ff5bb77046''"

text \<open>
  One call of \<open>discover\<close>, from the moment its promise is made: the closure of its
  \<open>discover\<close> listener (the normalised addresses and the flag), its duration timer and
  how far it got.
\<close>

datatype phase = AwaitPower | Scanning | Stopping | Resolved "device list" | Failed string

record call =
  c_addresses :: "string list"
  c_duration :: jsvalue
  c_ignoreUnknown :: bool
  c_timer :: bool
  c_phase :: phase

datatype noble_call = On_stateChange | On_discover | StartScanning | StopScanning

text \<open>
  The single exported engine with the adapter it drives, and the store of arrays.
  \<open>devices\<close> is \<open>this._devices\<close>, its own properties in the order they were
  added;
  \<open>discover_listeners\<close> are the calls whose listener is registered on the adapter's
  \<open>discover\<close> event, in the order of registration; \<open>noble_calls\<close> is everything the
  engine asked of the adapter.
\<close>

record world =
  devices :: "(string \<times> device) list"
  noble_state :: string
  calls :: "call list"
  discover_listeners :: "nat list"
  noble_calls :: "noble_call list"
  arrays :: "nat \<Rightarrow> jsvalue list"
  next_ref :: nat

definition new_world :: "string \<Rightarrow> world" where
  "new_world st =
     \<lparr> devices = [], noble_state = st, calls = [], discover_listeners = [],
       noble_calls = [], arrays = (\<lambda>r. []), next_ref = 0 \<rparr>"

text \<open>
  \<open>this._devices\<close> is a plain object, so reading a key also finds what every object
  inherits.
\<close>

definition object_prototype_keys :: "string list" where
  "object_prototype_keys =
     [''constructor'', ''__proto__'', ''hasOwnProperty'', ''isPrototypeOf'',
      ''propertyIsEnumerable'', ''toLocaleString'', ''toString'', ''valueOf'',
      ''__defineGetter__'', ''__defineSetter__'', ''__lookupGetter__'', ''__lookupSetter__'']"

definition has_property :: "(string \<times> device) list \<Rightarrow> string \<Rightarrow> bool" where
  "has_property devs k = (k \<in> set object_prototype_keys \<or> k \<in> set (map fst devs))"

definition checkDiscovered :: "string list \<Rightarrow> (string \<times> device) list \<Rightarrow> bool" where
  "checkDiscovered addrs devs = fold (\<lambda>a result. result \<and> has_property devs a) addrs True"

definition update_call :: "nat \<Rightarrow> (call \<Rightarrow> call) \<Rightarrow> world \<Rightarrow> world" where
  "update_call cid f w = w\<lparr>calls := (calls w)[cid := f (calls w ! cid)]\<rparr>"

subsection \<open>Scanning\<close>

text \<open>
  The promise of \<open>_startScan\<close> is resolved: \<open>discover\<close> goes on to \<open>_stopScan\<close>.
  Resolving a promise that is already settled does nothing.
\<close>

definition scan_resolved :: "nat \<Rightarrow> world \<Rightarrow> world" where
  "scan_resolved cid w =
     (if c_phase (calls w ! cid) = Scanning
      then (update_call cid (\<lambda>c. c\<lparr>c_phase := Stopping\<rparr>) w)
             \<lparr>noble_calls := noble_calls w @ [StopScanning]\<rparr>
      else w)"

definition startScan :: "nat \<Rightarrow> world \<Rightarrow> world" where
  "startScan cid w =
     (let w1 = update_call cid (\<lambda>c. c\<lparr>c_phase := Scanning\<rparr>) w;
          addrs = c_addresses (calls w1 ! cid)
      in if addrs \<noteq> [] \<and> checkDiscovered addrs (devices w1) then scan_resolved cid w1
         else (update_call cid (\<lambda>c. c\<lparr>c_timer := True\<rparr>) w1)
                \<lparr>discover_listeners := discover_listeners w1 @ [cid],
                 noble_calls := noble_calls w1 @ [On_discover, StartScanning]\<rparr>)"

text \<open>
  The listener that the call \<open>cid\<close> registered, on one advertisement.
  \<open>addresses.find(...)\<close> gives the entry found, and the empty string is falsy.
\<close>

definition on_discover :: "peripheral \<Rightarrow> nat \<Rightarrow> world \<Rightarrow> world" where
  "on_discover p cid w =
     (let c = calls w ! cid;
          deviceAddress = normaliseAddress (p_address p)
      in if c_ignoreUnknown c \<and> \<not> (deviceAddress \<in> set (c_addresses c) \<and> deviceAddress \<noteq> [])
         then w
         else if UUID_SERVICE_CCRTBLE \<notin> set (p_serviceUuids p) then w
         else if has_property (devices w) deviceAddress then w
         else
           (let w1 = w\<lparr>devices := devices w @ [(deviceAddress, new_device p)]\<rparr>
            in if c_addresses c \<noteq> [] \<and> checkDiscovered (c_addresses c) (devices w1)
               then scan_resolved cid (update_call cid (\<lambda>c. c\<lparr>c_timer := False\<rparr>) w1)
               else w1))"

datatype noble_event =
    StateChange string
  | Discover peripheral
  | DurationReached nat
  | ScanStartError nat string
  | ScanStop

text \<open>
  One event of the adapter or of a duration timer. On \<open>stateChange\<close> to \<open>poweredOn\<close>
  every call that waits for it starts its scan; an advertisement goes to every registered
  listener; an error of \<open>startScanning\<close> rejects the call; \<open>scanStop\<close> runs the callbacks
  of \<open>stopScanning\<close>, each of which resolves its call with \<open>Object.values(this._devices)\<close>.
\<close>

definition await_power :: "world \<Rightarrow> nat list" where
  "await_power w = filter (\<lambda>cid. c_phase (calls w ! cid) = AwaitPower) [0..<length (calls w)]"

text \<open>
  \<open>Object.values\<close> lists the values of the keys that are array indices first, in
  ascending order of the index, and then the values of the other keys in the order they
  were added. An array index is the decimal writing, without a leading zero, of a number
  below \<open>2 ^ 32 - 1\<close>.
\<close>

definition is_digit :: "char \<Rightarrow> bool" where
  "is_digit c = (48 \<le> (of_char c :: int) \<and> (of_char c :: int) \<le> 57)"

definition digits_value :: "string \<Rightarrow> int" where
  "digits_value k = foldl (\<lambda>n c. 10 * n + (of_char c - 48)) 0 k"

definition array_index :: "string \<Rightarrow> int option" where
  "array_index k =
     (if k \<noteq> [] \<and> list_all is_digit k \<and> (length k = 1 \<or> hd k \<noteq> CHR ''0'') \<and>
         digits_value k < 4294967295
      then Some (digits_value k) else None)"

definition index_of :: "string \<times> 'a \<Rightarrow> int" where
  "index_of e = (case array_index (fst e) of Some n \<Rightarrow> n | None \<Rightarrow> 0)"

definition Object_values :: "(string \<times> 'a) list \<Rightarrow> 'a list" where
  "Object_values entries =
     map snd (sort_key index_of (filter (\<lambda>e. array_index (fst e) \<noteq> None) entries)) @
     map snd (filter (\<lambda>e. array_index (fst e) = None) entries)"

definition stop_scan_done :: "world \<Rightarrow> call \<Rightarrow> call" where
  "stop_scan_done w c =
     (if c_phase c = Stopping then c\<lparr>c_phase := Resolved (Object_values (devices w))\<rparr> else c)"

definition noble_step :: "noble_event \<Rightarrow> world \<Rightarrow> world" where
  "noble_step e w =
     (case e of
        StateChange st \<Rightarrow>
          (let w1 = w\<lparr>noble_state := st\<rparr>
           in if st = ''poweredOn'' then fold startScan (await_power w1) w1 else w1)
      | Discover p \<Rightarrow> fold (on_discover p) (discover_listeners w) w
      | DurationReached cid \<Rightarrow>
          (if cid < length (calls w) \<and> c_timer (calls w ! cid)
           then scan_resolved cid (update_call cid (\<lambda>c. c\<lparr>c_timer := False\<rparr>) w)
           else w)
      | ScanStartError cid msg \<Rightarrow>
          (if cid < length (calls w) \<and> c_phase (calls w ! cid) = Scanning
           then update_call cid (\<lambda>c. c\<lparr>c_phase := Failed msg\<rparr>) w
           else w)
      | ScanStop \<Rightarrow> w\<lparr>calls := map (stop_scan_done w) (calls w)\<rparr>)"

subsection \<open>discover\<close>

text \<open>
  \<open>discover(options)\<close>. The three options are read, the default of \<open>addresses\<close>
  being a new empty array; the three checks throw; the entries of the array are
  normalised in place; then the promise is made, whose body checks the adapter's state
  and either starts the scan or registers a listener for the state change. The result is
  the error thrown or the number of the call.
\<close>

definition discover ::
  "(jsvalue \<Rightarrow> jsnum) \<Rightarrow> options option \<Rightarrow> world \<Rightarrow> (error + nat) \<times> world" where
  "discover conv opts w =
     (let optDuration = getOpt opts duration (JNumber (Num 10000));
          w1 = w\<lparr>arrays := (arrays w)(next_ref w := []), next_ref := next_ref w + 1\<rparr>;
          optAddresses = getOpt opts addresses (JArray (next_ref w));
          optIgnoreUnknown = getOpt opts ignoreUnknown (JBoolean False)
      in if isNaN conv optDuration
         then (Inl (TypeError ''argument [duration] must be a number''), w1)
         else case optAddresses of
           JArray r \<Rightarrow>
             (case optIgnoreUnknown of
                JBoolean ign \<Rightarrow>
                  (case forEach_normalise (arrays w1 r) of
                     (Some err, ys) \<Rightarrow> (Inl err, w1\<lparr>arrays := (arrays w1)(r := ys)\<rparr>)
                   | (None, ys) \<Rightarrow>
                       (let cid = length (calls w1);
                            w2 = w1\<lparr>arrays := (arrays w1)(r := ys),
                                    calls := calls w1 @
                                      [\<lparr> c_addresses = map the_string ys,
                                         c_duration = optDuration, c_ignoreUnknown = ign,
                                         c_timer = False, c_phase = AwaitPower \<rparr>]\<rparr>
                        in (Inr cid,
                            if noble_state w2 = ''poweredOn'' then startScan cid w2
                            else w2\<lparr>noble_calls := noble_calls w2 @ [On_stateChange]\<rparr>)))
              | _ \<Rightarrow> (Inl (TypeError ''argument [skipUnknown] must be of type boolean''), w1))
         | _ \<Rightarrow> (Inl (TypeError ''argument [addresses] must be an array''), w1))"

datatype input = Call "options option" | Event noble_event

definition exec :: "(jsvalue \<Rightarrow> jsnum) \<Rightarrow> input \<Rightarrow> world \<Rightarrow> world" where
  "exec conv i w = (case i of Call opts \<Rightarrow> snd (discover conv opts w) | Event e \<Rightarrow> noble_step e w)"

definition exec_all :: "(jsvalue \<Rightarrow> jsnum) \<Rightarrow> input list \<Rightarrow> world \<Rightarrow> world" where
  "exec_all conv ins w = fold (exec conv) ins w"

section \<open>Notions used in the statements\<close>

subsection \<open>Addresses that differ only in separator or case\<close>

text \<open>
  Two characters are case variants when one is an upper-case letter and the other is the
  lower-case letter 32 code units above it; two strings differ only in separator or case
  when they have the same length and, position by position, the characters are equal, are
  both separators, or are case variants.
\<close>

definition case_variants :: "char \<Rightarrow> char \<Rightarrow> bool" where
  "case_variants c d =
     ((upper_code (of_char c) \<and> (of_char d :: nat) = of_char c + 32) \<or>
      (upper_code (of_char d) \<and> (of_char c :: nat) = of_char d + 32))"

definition is_separator :: "char \<Rightarrow> bool" where
  "is_separator c = (c = CHR ''-'' \<or> c = CHR '':'')"

definition same_identity_char :: "char \<Rightarrow> char \<Rightarrow> bool" where
  "same_identity_char c d = (c = d \<or> (is_separator c \<and> is_separator d) \<or> case_variants c d)"

definition differ_only_in_separator_or_case :: "string \<Rightarrow> string \<Rightarrow> bool" where
  "differ_only_in_separator_or_case a b = list_all2 same_identity_char a b"

subsection \<open>The encoding the specification words describe\<close>

text \<open>
  The specification says the target temperature is encoded as \<open>round(value \<times> 2)\<close>;
  \<open>encodeTemp_spec\<close> is that byte. \<open>double_21_3\<close> is the double that the literal
  \<open>21.3\<close> denotes. \<open>the_status\<close> reads a decoded record, if there is one.
\<close>

definition encodeTemp_spec :: "rat \<Rightarrow> u8" where
  "encodeTemp_spec v = word_of_int (round (v * 2))"

definition double_21_3 :: rat where
  "double_21_3 = 5995417003936973 / 281474976710656"

fun the_status :: "parsed_status \<Rightarrow> status_t option" where
  "the_status EmptyObject = None"
| "the_status (StatusRecord r) = Some r"

subsection \<open>Example notifications\<close>

text \<open>
  Two status notifications of sub-type 1 that differ in byte 2 only: bit 0 set and bit 1
  clear in the first, bit 1 set and bit 0 clear in the second. \<open>status_reply b\<close> is a
  status notification whose target temperature byte is \<open>b\<close>.
\<close>

definition status_buffer_bit0 :: "u8 list" where
  "status_buffer_bit0 = [2, 1, 1, 0, 4, 43, 24, 19, 31, 11, 24, 3, 42, 34, 7]"

definition status_buffer_bit1 :: "u8 list" where
  "status_buffer_bit1 = [2, 1, 2, 0, 4, 43, 24, 19, 31, 11, 24, 3, 42, 34, 7]"


definition status_reply :: "u8 \<Rightarrow> u8 list" where
  "status_reply b = [2, 1, 0, 0, 4, b, 0, 0, 0, 0, 24, 3, 42, 34, 7]"

subsection \<open>Sessions that can arise\<close>

text \<open>
  A session is reachable when it comes from the constructor by calls of \<open>connect\<close>,
  \<open>disconnect\<close> and \<open>_sendCommand\<close> (through which every command goes) and by
  events. A cell is plain when nothing in the module waits on it. In every reachable
  session the listeners on \<open>_dataEvents\<close> resolve plain cells, and so does the
  continuation of every \<open>connect()\<close> made by a command (\<open>session_inv\<close>).
\<close>

definition plain :: "cell list \<Rightarrow> nat \<Rightarrow> bool" where
  "plain cs c = (c < length cs \<and> cell_awaiter (cs ! c) = NoAwaiter)"

fun awaiter_ok :: "cell list \<Rightarrow> awaiter \<Rightarrow> bool" where
  "awaiter_ok cs (SendCommand cmd buffer event) = plain cs cmd"
| "awaiter_ok cs a = True"

definition session_inv :: "session \<Rightarrow> bool" where
  "session_inv s =
     (list_all (\<lambda>l. plain (cells s) (snd l)) (dataEvents s) \<and>
      list_all (\<lambda>c. awaiter_ok (cells s) (cell_awaiter c)) (cells s))"

inductive reachable :: "session \<Rightarrow> bool" where
  constructed: "reachable (new_session st)"
| connected: "reachable s \<Longrightarrow> reachable (snd (connect s))"
| disconnected: "reachable s \<Longrightarrow> reachable (snd (disconnect s))"
| commanded: "reachable s \<Longrightarrow> reachable (snd (sendCommand buffer event s))"
| stepped: "reachable s \<Longrightarrow> reachable (step e s)"

text \<open>One list of cells extends another without changing who waits on the old cells.\<close>

definition same_awaiters :: "cell list \<Rightarrow> cell list \<Rightarrow> bool" where
  "same_awaiters cs cs' =
     (length cs \<le> length cs' \<and> (\<forall>i < length cs. cell_awaiter (cs' ! i) = cell_awaiter (cs ! i)))"

subsection \<open>A command waiting for its reply\<close>

text \<open>
  \<open>unknown_status\<close> is a status notification of sub-type 2. \<open>awaiting_status\<close> is a
  session made by the constructor on which \<open>getStatus\<close> was called: the adapter has
  connected, the characteristics are resolved, the subscription is acknowledged and the
  command is written, with neither the write acknowledged nor a reply received. Cell 0 is
  the promise \<open>getStatus\<close> returned.
\<close>

definition unknown_status :: "u8 list" where
  "unknown_status = [2, 2, 0, 0, 4, 43, 0, 0, 0, 0, 24, 3, 42, 34, 7]"

definition status_request :: "u8 list" where
  "status_request = getStatus_buffer 2019 10 24 15 30 0"

definition awaiting_status :: session where
  "awaiting_status =
     run [AdapterConnect None, ServicesDiscovered 2 None (Service True True), Subscribed 1 None]
       (snd (sendCommand status_request ''status'' (new_session Disconnected)))"

text \<open>
  \<open>connected_session\<close> is a session made by the constructor on which \<open>connect()\<close>
  has completed: connected, characteristics resolved, subscribed, no command yet.
\<close>

definition connected_session :: session where
  "connected_session =
     run [AdapterConnect None, ServicesDiscovered 1 None (Service True True), Subscribed 0 None]
       (snd (connect (new_session Disconnected)))"

subsection \<open>Deadlines\<close>

text \<open>
  \<open>advances N s s'\<close>: the session \<open>s'\<close> comes after \<open>s\<close> with no time passed. The
  cells of \<open>s\<close> are still there, a settled one as it was; every timer of \<open>s\<close> is still
  set, and a new timer belongs to a new cell and has the deadline of now plus the delay;
  every new cell that is pending has its timer, those in \<open>N\<close> apart.
\<close>

definition advances :: "nat set \<Rightarrow> session \<Rightarrow> session \<Rightarrow> bool" where
  "advances N s s' =
     (clock s' = clock s \<and> length (cells s) \<le> length (cells s') \<and>
      (\<forall>c < length (cells s). cell_state (cells s ! c) \<noteq> Pending \<longrightarrow>
           cell_state (cells s' ! c) = cell_state (cells s ! c)) \<and>
      set (timers s) \<subseteq> set (timers s') \<and>
      (\<forall>t \<in> set (timers s'). t \<in> set (timers s) \<or>
           (length (cells s) \<le> fst t \<and> fst t < length (cells s') \<and>
            snd t = clock s + timeout_ms)) \<and>
      (\<forall>c < length (cells s'). length (cells s) \<le> c \<and> cell_state (cells s' ! c) = Pending \<longrightarrow>
           c \<in> N \<or> c \<in> fst ` set (timers s')))"

text \<open>
  \<open>timed_but X s\<close>: every pending cell, those in \<open>X\<close> apart, has a timer that is set;
  every timer that is set belongs to a cell, and its deadline is ahead, by the delay
  at most. \<open>timed\<close> is how every session is between two events.
\<close>

definition timed_but :: "nat set \<Rightarrow> session \<Rightarrow> bool" where
  "timed_but X s =
     ((\<forall>c < length (cells s). cell_state (cells s ! c) = Pending \<longrightarrow>
           c \<in> X \<or> c \<in> fst ` set (timers s)) \<and>
      (\<forall>t \<in> set (timers s). fst t < length (cells s) \<and> clock s < snd t \<and>
           snd t \<le> clock s + timeout_ms))"

definition timed :: "session \<Rightarrow> bool" where
  "timed s = timed_but {} s"

text \<open>
  \<open>later s s'\<close>: \<open>s'\<close> comes after \<open>s\<close>, time may have passed. A settled cell is as
  it was, and a timer of an old cell that is still set was set in \<open>s\<close>.
\<close>

definition later :: "session \<Rightarrow> session \<Rightarrow> bool" where
  "later s s' =
     (clock s \<le> clock s' \<and> length (cells s) \<le> length (cells s') \<and>
      (\<forall>c < length (cells s). cell_state (cells s ! c) \<noteq> Pending \<longrightarrow>
           cell_state (cells s' ! c) = cell_state (cells s ! c)) \<and>
      (\<forall>t \<in> set (timers s'). fst t < length (cells s) \<longrightarrow> t \<in> set (timers s)))"

text \<open>
  \<open>only_rejects r s s'\<close>: the two sessions differ in the states of their promises
  only, and a promise that differs was pending and is rejected with \<open>r\<close>.
\<close>

definition only_rejects :: "reason \<Rightarrow> session \<Rightarrow> session \<Rightarrow> bool" where
  "only_rejects r s s' =
     (s' = s\<lparr>cells := cells s'\<rparr> \<and> length (cells s') = length (cells s) \<and>
      (\<forall>c < length (cells s).
           cell_awaiter (cells s' ! c) = cell_awaiter (cells s ! c) \<and>
           (cell_state (cells s' ! c) = cell_state (cells s ! c) \<or>
            cell_state (cells s ! c) = Pending \<and> cell_state (cells s' ! c) = Rejected r)))"

text \<open>What a caller or the adapter can do to a session, and a sequence of it.\<close>

datatype action = Connect | Disconnect | Command "u8 list" string | Happen event

fun perform :: "action \<Rightarrow> session \<Rightarrow> session" where
  "perform Connect s = snd (connect s)"
| "perform Disconnect s = snd (disconnect s)"
| "perform (Command buffer event) s = snd (sendCommand buffer event s)"
| "perform (Happen e) s = step e s"

definition perform_all :: "action list \<Rightarrow> session \<Rightarrow> session" where
  "perform_all acts s = fold perform acts s"

subsection \<open>Operations that time out\<close>

text \<open>
  \<open>timed_out_status\<close>: the waiting \<open>getStatus\<close> of \<open>awaiting_status\<close> after 10000 ms
  in which the adapter neither acknowledges the write nor sends a reply.
  \<open>timed_out_connect\<close>: a \<open>connect()\<close> on a new session after 10000 ms in which the
  adapter does not connect. \<open>second_connect\<close>: a fresh \<open>connect()\<close> after that.
  \<open>both_connected\<close>: the adapter then connects, both characteristic discoveries
  succeed and both subscriptions are acknowledged. \<open>timed_out_disconnect\<close>: a
  \<open>disconnect()\<close> on the connected session after 10000 ms in which the adapter does not
  disconnect.
\<close>

definition timed_out_status :: session where
  "timed_out_status = step (Elapse 10000) awaiting_status"

definition timed_out_connect :: session where
  "timed_out_connect = step (Elapse 10000) (snd (connect (new_session Disconnected)))"

definition second_connect :: session where
  "second_connect = snd (connect timed_out_connect)"

definition both_connected :: session where
  "both_connected =
     run [ServicesDiscovered 2 None (Service True True),
          ServicesDiscovered 3 None (Service True True),
          Subscribed 0 None, Subscribed 1 None]
       (step (AdapterConnect None) second_connect)"

definition timed_out_disconnect :: session where
  "timed_out_disconnect = step (Elapse 10000) (snd (disconnect connected_session))"

subsection \<open>Configurations\<close>

text \<open>
  A configuration passes \<open>discover\<close>'s checks when its duration (or the default) does
  not convert to NaN, its addresses (or the default) are an array whose entries are all
  strings, and its ignoreUnknown (or the default) is a boolean. The new empty array that
  \<open>discover\<close> makes for the default is at the next free reference.
  \<open>conv_NaN\<close> is a conversion under which no string or object is a number; the
  examples use it with strings that are not numeric.
\<close>

fun is_string :: "jsvalue \<Rightarrow> bool" where
  "is_string (JString a) = True"
| "is_string v = False"

definition valid_config :: "(jsvalue \<Rightarrow> jsnum) \<Rightarrow> options option \<Rightarrow> world \<Rightarrow> bool" where
  "valid_config conv opts w =
     (\<not> isNaN conv (getOpt opts duration (JNumber (Num 10000))) \<and>
      (case getOpt opts addresses (JArray (next_ref w)) of
         JArray r \<Rightarrow> list_all is_string (((arrays w)(next_ref w := [])) r)
       | _ \<Rightarrow> False) \<and>
      (case getOpt opts ignoreUnknown (JBoolean False) of JBoolean b \<Rightarrow> True | _ \<Rightarrow> False))"

definition conv_NaN :: "jsvalue \<Rightarrow> jsnum" where
  "conv_NaN v = NaN"

subsection \<open>Example discoveries\<close>

text \<open>
  Three addresses, an advertisement that carries the service, a store that holds the
  caller's array of A and B (written with hyphens and capitals) at reference 0 and an
  array with a number in it at reference 1, and configurations over them.
\<close>

definition addr_A :: string where "addr_A = ''00:1a:22:0e:54:19''"
definition addr_B :: string where "addr_B = ''00:1a:22:0e:54:20''"
definition addr_C :: string where "addr_C = ''00:1a:22:0e:54:21''"

definition advert :: "string \<Rightarrow> peripheral" where
  "advert a = \<lparr> p_address = a, p_localName = Some ''CC-RT-BLE'',
                p_serviceUuids = [UUID_SERVICE_CCRTBLE] \<rparr>"

definition world_AB :: world where
  "world_AB = (new_world ''poweredOn'')
     \<lparr> arrays := (\<lambda>r. if r = 0 then [JString ''00-1A-22-0E-54-19'', JString ''00-1A-22-0E-54-20'']
                       else if r = 1 then [JNumber (Num 5)] else []),
       next_ref := 2 \<rparr>"

definition options_AB :: options where
  "options_AB =
     \<lparr> duration = JNumber (Num 30000), addresses = JArray 0, ignoreUnknown = JBoolean True \<rparr>"

definition options_duration :: "jsvalue \<Rightarrow> options" where
  "options_duration v = \<lparr> duration = v, addresses = JUndefined, ignoreUnknown = JUndefined \<rparr>"

text \<open>
  The caller's array of A alone, and worlds reached from it. In \<open>found_A\<close> one call
  asked for A and A advertised. In \<open>stale_listener\<close> a first call without addresses
  ran for its whole duration and was resolved, then a second call asked for A and A
  advertised. In \<open>scenario_AB\<close> one call asked for A and B, ignoring unknown
  addresses, and A and B advertised.
\<close>

definition options_A :: options where
  "options_A = \<lparr> duration = JUndefined, addresses = JArray 0, ignoreUnknown = JUndefined \<rparr>"

definition world_A :: world where
  "world_A = (new_world ''poweredOn'')
     \<lparr> arrays := (\<lambda>r. if r = 0 then [JString addr_A] else []), next_ref := 1 \<rparr>"

definition found_A :: world where
  "found_A = exec_all conv_NaN [Call (Some options_A), Event (Discover (advert addr_A))] world_A"

text \<open>
  \<open>resolved_A\<close>: the scan of \<open>found_A\<close> has stopped and its call is resolved.
  \<open>waiting_A\<close>: the adapter was then powered off and a later call asked for A again; it
  waits for the adapter.
\<close>

definition resolved_A :: world where
  "resolved_A = noble_step ScanStop found_A"

definition waiting_A :: world where
  "waiting_A =
     exec_all conv_NaN [Event (StateChange ''poweredOff''), Call (Some options_A)] resolved_A"

definition stale_listener :: world where
  "stale_listener =
     exec_all conv_NaN
       [Call (Some (options_duration (JNumber (Num 100)))), Event (DurationReached 0),
        Event ScanStop, Call (Some options_A), Event (Discover (advert addr_A))] world_A"

definition scenario_AB :: world where
  "scenario_AB =
     exec_all conv_NaN
       [Call (Some options_AB), Event (Discover (advert ''00-1A-22-0E-54-19'')),
        Event (Discover (advert addr_B))] world_AB"

section \<open>Device identity: normalisation\<close>

lemma upper_code_plus: "upper_code n \<Longrightarrow> n + 32 < 256 \<and> \<not> upper_code (n + 32)"
  by (auto simp: upper_code_def)

lemma of_char_lower_upper:
  assumes "upper_code (of_char c)"
  shows "(of_char (char_of (of_char c + 32 :: nat) :: char) :: nat) = of_char c + 32"
proof -
  have "(of_char c :: nat) + 32 < 256" using assms upper_code_plus by blast
  then show ?thesis by (simp add: of_char_of)
qed

lemma toLowerCase_char_idem: "toLowerCase_char (toLowerCase_char c) = toLowerCase_char c"
proof (cases "upper_code (of_char c)")
  case True
  then have "\<not> upper_code (of_char (char_of (of_char c + 32 :: nat) :: char))"
    using of_char_lower_upper upper_code_plus by simp
  then show ?thesis by (simp add: toLowerCase_char_def)
next
  case False
  then show ?thesis by (simp add: toLowerCase_char_def)
qed

lemma toLowerCase_char_not_hyphen: "toLowerCase_char c = CHR ''-'' \<Longrightarrow> c = CHR ''-''"
proof (cases "upper_code (of_char c)")
  case True
  assume "toLowerCase_char c = CHR ''-''"
  with True have "char_of (of_char c + 32 :: nat) = CHR ''-''"
    by (simp add: toLowerCase_char_def)
  then have "(of_char (char_of (of_char c + 32 :: nat) :: char) :: nat) = of_char (CHR ''-'')"
    by simp
  with True have "(of_char c :: nat) + 32 = 45"
    using of_char_lower_upper by simp
  with True show ?thesis by (simp add: upper_code_def)
next
  case False
  assume "toLowerCase_char c = CHR ''-''"
  with False show ?thesis by (simp add: toLowerCase_char_def)
qed

lemma hyphen_not_upper: "\<not> upper_code (of_char CHR ''-'')" "\<not> upper_code (of_char CHR '':'')"
  by (simp_all add: upper_code_def)

lemma normalise_char_idem:
  "toLowerCase_char (if toLowerCase_char (if c = CHR ''-'' then CHR '':'' else c) = CHR ''-''
       then CHR '':'' else toLowerCase_char (if c = CHR ''-'' then CHR '':'' else c))
   = toLowerCase_char (if c = CHR ''-'' then CHR '':'' else c)"
proof (cases "c = CHR ''-''")
  case True
  have "toLowerCase_char CHR '':'' = CHR '':''"
    using hyphen_not_upper by (simp add: toLowerCase_char_def)
  with True show ?thesis by simp
next
  case False
  then have "toLowerCase_char c \<noteq> CHR ''-''"
    using toLowerCase_char_not_hyphen by blast
  with False show ?thesis by (simp add: toLowerCase_char_idem)
qed

lemma normaliseAddress_idem: "normaliseAddress (normaliseAddress a) = normaliseAddress a"
  by (induction a) (simp_all add: normaliseAddress_def toLowerCase_def replace_hyphens_def normalise_char_idem)

lemma case_variants_lower:
  assumes "upper_code (of_char c)" "(of_char d :: nat) = of_char c + 32"
  shows "toLowerCase_char c = d" "toLowerCase_char d = d" "c \<noteq> CHR ''-''" "d \<noteq> CHR ''-''"
proof -
  have "char_of (of_char d :: nat) = d" by simp
  then have "char_of (of_char c + 32 :: nat) = d" using assms(2) by simp
  then show "toLowerCase_char c = d" using assms(1) by (simp add: toLowerCase_char_def)
  have "\<not> upper_code (of_char d)" using assms upper_code_plus by simp
  then show "toLowerCase_char d = d" by (simp add: toLowerCase_char_def)
  show "c \<noteq> CHR ''-''" using assms(1) hyphen_not_upper by auto
  have "(of_char d :: nat) \<noteq> 45" using assms by (auto simp: upper_code_def)
  then show "d \<noteq> CHR ''-''" by auto
qed

lemma same_identity_char_normalise:
  assumes "same_identity_char c d"
  shows "toLowerCase_char (if c = CHR ''-'' then CHR '':'' else c)
       = toLowerCase_char (if d = CHR ''-'' then CHR '':'' else d)"
proof -
  consider "c = d" | "is_separator c \<and> is_separator d"
    | "upper_code (of_char c) \<and> (of_char d :: nat) = of_char c + 32"
    | "upper_code (of_char d) \<and> (of_char c :: nat) = of_char d + 32"
    using assms by (auto simp: same_identity_char_def case_variants_def)
  then show ?thesis
  proof cases
    case 1 then show ?thesis by simp
  next
    case 2 then show ?thesis by (auto simp: is_separator_def)
  next
    case 3
    then show ?thesis using case_variants_lower [of c d] by simp
  next
    case 4
    then show ?thesis using case_variants_lower [of d c] by simp
  qed
qed

lemma differ_normalise:
  "differ_only_in_separator_or_case a b \<Longrightarrow> normaliseAddress a = normaliseAddress b"
  unfolding differ_only_in_separator_or_case_def
  by (induction a b rule: list_all2_induct)
     (simp_all add: normaliseAddress_def toLowerCase_def replace_hyphens_def same_identity_char_normalise)

text \<open>
  C4: \<open>normaliseAddress\<close> is idempotent, and two addresses that differ only in the
  separator character (\<open>-\<close> or \<open>:\<close>) or in letter case normalise to the same string.
\<close>

theorem normaliseAddress_idempotent_separator_case:
  "normaliseAddress (normaliseAddress a) = normaliseAddress a \<and>
   (differ_only_in_separator_or_case a b \<longrightarrow> normaliseAddress a = normaliseAddress b)"
  using normaliseAddress_idem differ_normalise by blast

lemma ex_differ: "differ_only_in_separator_or_case ''00-1A-22'' ''00:1a:22''"
  by (simp add: differ_only_in_separator_or_case_def same_identity_char_def is_separator_def
       case_variants_def upper_code_def)

text \<open>The theorem of C4 at the addresses \<open>00-1A-22\<close> and \<open>00:1a:22\<close>.\<close>

theorem normaliseAddress_idempotent_separator_case_witness:
  "differ_only_in_separator_or_case ''00-1A-22'' ''00:1a:22'' \<and>
   normaliseAddress ''00-1A-22'' = normaliseAddress ''00:1a:22'' \<and>
   normaliseAddress ''00-1A-22'' = ''00:1a:22'' \<and>
   normaliseAddress (normaliseAddress ''00-1A-22'') = normaliseAddress ''00-1A-22''"
  using normaliseAddress_idempotent_separator_case [of "''00-1A-22''" "''00:1a:22''"] ex_differ
  by (simp add: normaliseAddress_def toLowerCase_def replace_hyphens_def toLowerCase_char_def upper_code_def)

section \<open>Codec: the target temperature command\<close>

lemma unat_word_of_int_u8:
  assumes "0 \<le> k" "k < 256"
  shows "unat (word_of_int k :: u8) = nat k"
proof -
  have "uint (word_of_int k :: u8) = k"
    by (rule word_of_int_inverse [OF refl]) (use assms in simp_all)
  then show ?thesis by (simp add: unat_eq_nat_uint del: nat_uint_eq)
qed

lemma setTargetTemperature_Num:
  "setTargetTemperature (Num v) = [65, word_of_int (js_trunc (v * 2))]"
  by (simp add: setTargetTemperature_def Buffer_of_def ToUint8_def js_mul_def js_trunc_def)

lemma trunc_bounds:
  assumes "0 \<le> v" "v * 2 < 256"
  shows "0 \<le> js_trunc (v * 2)" "js_trunc (v * 2) < 256"
    "of_int (js_trunc (v * 2)) \<le> v * 2" "v * 2 < of_int (js_trunc (v * 2)) + 1"
proof -
  have nn: "\<not> v * 2 < 0" using assms(1) by simp
  then have t: "js_trunc (v * 2) = \<lfloor>v * 2\<rfloor>" by (simp add: js_trunc_def)
  show "0 \<le> js_trunc (v * 2)" using assms(1) t by simp
  show "js_trunc (v * 2) < 256" using assms(2) t by (simp add: floor_less_iff)
  show "of_int (js_trunc (v * 2)) \<le> v * 2" using t by simp
  show "v * 2 < of_int (js_trunc (v * 2)) + 1" using t by linarith
qed

text \<open>
  C2, as the code has it: \<open>setTargetTemperature(value)\<close> hands \<open>_sendCommand\<close> the
  buffer \<open>[0x41, b]\<close> where \<open>b\<close> is \<open>value \<times> 2\<close> truncated towards zero and taken
  modulo 256 (0 for NaN). For \<open>0 \<le> value\<close> and \<open>value \<times> 2 < 256\<close> the byte is the
  largest half-degree step not above the value: \<open>b / 2 \<le> value < b / 2 + 1 / 2\<close>.
\<close>

theorem setTargetTemperature_truncates:
  "setTargetTemperature (Num v) = [65, word_of_int (js_trunc (v * 2))] \<and>
   setTargetTemperature NaN = [65, 0] \<and>
   (0 \<le> v \<and> v * 2 < 256 \<longrightarrow>
      of_nat (unat (setTargetTemperature (Num v) ! 1)) / 2 \<le> v \<and>
      v < of_nat (unat (setTargetTemperature (Num v) ! 1)) / 2 + 1 / 2)"
proof (intro conjI impI)
  show "setTargetTemperature (Num v) = [65, word_of_int (js_trunc (v * 2))]"
    by (rule setTargetTemperature_Num)
  show "setTargetTemperature NaN = [65, 0]"
    by (simp add: setTargetTemperature_def Buffer_of_def ToUint8_def js_mul_def js_trunc_def)
next
  assume a: "0 \<le> v \<and> v * 2 < 256"
  let ?k = "js_trunc (v * 2)"
  have u: "unat (setTargetTemperature (Num v) ! 1) = nat ?k"
    using a trunc_bounds(1,2) [of v] by (simp add: setTargetTemperature_Num unat_word_of_int_u8)
  have o: "(of_nat (nat ?k) :: rat) = of_int ?k"
    using a trunc_bounds(1) [of v] by simp
  show "of_nat (unat (setTargetTemperature (Num v) ! 1)) / 2 \<le> v"
    using a trunc_bounds(3) [of v] by (simp only: u o) simp
  show "v < of_nat (unat (setTargetTemperature (Num v) ! 1)) / 2 + 1 / 2"
    using a trunc_bounds(4) [of v] by (simp only: u o) simp
qed

lemma payload_21_3: "setTargetTemperature (Num (213 / 10)) = [65, 42]"
  by code_simp

text \<open>The theorem of C2 at 21.3: the byte is 42, that is 21.0 degrees.\<close>

theorem setTargetTemperature_truncates_witness:
  "(0::rat) \<le> 213 / 10 \<and> (213 / 10 :: rat) * 2 < 256 \<and>
   setTargetTemperature (Num (213 / 10)) = [65, 42] \<and>
   of_nat (unat (setTargetTemperature (Num (213 / 10)) ! 1)) / 2 \<le> (213 / 10 :: rat) \<and>
   (213 / 10 :: rat) < of_nat (unat (setTargetTemperature (Num (213 / 10)) ! 1)) / 2 + 1 / 2"
  using setTargetTemperature_truncates [of "213 / 10"] payload_21_3 by simp

text \<open>
  C2 as stated fails at 21.3 (as the rational and as the double the literal denotes):
  rounding gives 43, the code writes 42.
\<close>

theorem setTargetTemperature_round_counterexample:
  "setTargetTemperature (Num (213 / 10)) = [65, 42] \<and>
   encodeTemp_spec (213 / 10) = 43 \<and>
   setTargetTemperature (Num (213 / 10)) \<noteq> [65, encodeTemp_spec (213 / 10)] \<and>
   setTargetTemperature (Num double_21_3) = [65, 42] \<and>
   encodeTemp_spec double_21_3 = 43"
  by code_simp

section \<open>Codec: decoding a status notification\<close>

lemma mode_bits: "unat ((b :: u8) AND 3) = unat b mod 4"
proof -
  have "unat (b AND 3) = unat b AND unat (3 :: u8)"
    by (rule unsigned_and_eq)
  also have "\<dots> = unat b AND mask 2"
    by (simp add: mask_eq_exp_minus_1)
  also have "\<dots> = take_bit 2 (unat b)"
    by (simp only: take_bit_eq_mask)
  also have "\<dots> = unat b mod 4"
    by (simp add: take_bit_eq_mod)
  finally show ?thesis .
qed

lemma and_2_bit: "((b :: u8) AND 2 \<noteq> 0) = bit b 1"
  using and_exp_eq_0_iff_not_bit [of b 1] by simp

lemma and_1_odd: "((b :: u8) AND 1 \<noteq> 0) = odd (unat b)"
  by (metis even_of_nat even_word_def even_word_iff of_nat_unat ucast_id)

lemma byte_at_in: "i < length data \<Longrightarrow> byte_at data i = Some (data ! i)"
  by (simp add: byte_at_def)

lemma js_arith_num [simp]:
  "js_div (js_num (Some b)) c = Num (of_nat (unat b) / c)"
  "js_mul (js_num (Some b)) c = Num (of_nat (unat b) * c)"
  "js_add (js_num (Some b)) c = Num (of_nat (unat b) + c)"
  "js_sub (js_num (Some b)) c = Num (of_nat (unat b) - c)"
  "js_div (Num r) c = Num (r / c)"
  by (simp_all add: js_div_def js_mul_def js_add_def js_sub_def js_num_def)

lemma parseStatus_subtype1:
  assumes "15 \<le> length data" "data ! 1 AND 15 = 1"
  shows "parseStatus data =
    (StatusRecord \<lparr>
       mode = data ! 2 AND 3,
       isBoost = (data ! 2 AND 4 \<noteq> 0),
       isDst = (data ! 2 AND 8 \<noteq> 0),
       isWindowOpen = (data ! 2 AND 16 \<noteq> 0),
       isLocked = (data ! 2 AND 32 \<noteq> 0),
       isLowBattery = (data ! 2 AND 128 \<noteq> 0),
       valve = Some (data ! 3),
       targetTemp = Num (of_nat (unat (data ! 5)) / 2),
       away = (if data ! 2 AND 2 \<noteq> 0 then
                 Some \<lparr> day = Some (data ! 6),
                        year = Num (of_nat (unat (data ! 7)) + 2000),
                        minute = (if data ! 8 AND 1 \<noteq> 0 then 30 else 0),
                        hour = Num (of_nat (unat (data ! 8)) / 2),
                        month = Some (data ! 9) \<rparr>
               else None),
       windowOpen = \<lparr> temp = Num (of_nat (unat (data ! 10)) / 2),
                      time = Num (of_nat (unat (data ! 11)) * 5) \<rparr>,
       comfortTemp = Num (of_nat (unat (data ! 12)) / 2),
       ecoTemp = Num (of_nat (unat (data ! 13)) / 2),
       tempOffset = Num ((of_nat (unat (data ! 14)) - 7) / 2) \<rparr>, [])"
proof -
  have b: "byte_at data 1 = Some (data ! 1)" "byte_at data 2 = Some (data ! 2)"
    "byte_at data 3 = Some (data ! 3)" "byte_at data 5 = Some (data ! 5)"
    "byte_at data 6 = Some (data ! 6)" "byte_at data 7 = Some (data ! 7)"
    "byte_at data 8 = Some (data ! 8)" "byte_at data 9 = Some (data ! 9)"
    "byte_at data 10 = Some (data ! 10)" "byte_at data 11 = Some (data ! 11)"
    "byte_at data 12 = Some (data ! 12)" "byte_at data 13 = Some (data ! 13)"
    "byte_at data 14 = Some (data ! 14)"
    using assms(1) by (simp_all add: byte_at_def)
  show ?thesis
    unfolding parseStatus_def b js_band_def Let_def option.case
    using assms(2) by simp
qed

text \<open>
  C5, as the code has it: for a status notification of at least 15 bytes with sub-type 1,
  the decoded record has the mode from the two low bits of byte 2, the away schedule
  present exactly when bit 1 (mask \<open>0x02\<close>) of byte 2 is set and then decoded from bytes
  6 to 9, \<open>valve\<close> = byte 3, \<open>targetTemp\<close> = byte 5 / 2, \<open>windowOpen.temp\<close> =
  byte 10 / 2, \<open>windowOpen.time\<close> = byte 11 \<times> 5, \<open>comfortTemp\<close> = byte 12 / 2,
  \<open>ecoTemp\<close> = byte 13 / 2 and \<open>tempOffset\<close> = (byte 14 - 7) / 2.
\<close>

theorem parseStatus_fields:
  assumes "15 \<le> length data" and "data ! 1 AND 15 = 1"
  shows "\<exists>r. fst (parseStatus data) = StatusRecord r \<and>
     unat (mode r) = unat (data ! 2) mod 4 \<and>
     (away r \<noteq> None) = bit (data ! 2) 1 \<and>
     (\<forall>a. away r = Some a \<longrightarrow>
        day a = Some (data ! 6) \<and> year a = Num (of_nat (unat (data ! 7)) + 2000) \<and>
        minute a = (if odd (unat (data ! 8)) then 30 else 0) \<and>
        hour a = Num (of_nat (unat (data ! 8)) / 2) \<and> month a = Some (data ! 9)) \<and>
     valve r = Some (data ! 3) \<and>
     targetTemp r = Num (of_nat (unat (data ! 5)) / 2) \<and>
     temp (windowOpen r) = Num (of_nat (unat (data ! 10)) / 2) \<and>
     time (windowOpen r) = Num (of_nat (unat (data ! 11)) * 5) \<and>
     comfortTemp r = Num (of_nat (unat (data ! 12)) / 2) \<and>
     ecoTemp r = Num (of_nat (unat (data ! 13)) / 2) \<and>
     tempOffset r = Num ((of_nat (unat (data ! 14)) - 7) / 2)"
  unfolding parseStatus_subtype1 [OF assms]
  by (simp add: mode_bits and_2_bit and_1_odd)


text \<open>The theorem of C5 at a notification with the away bit set.\<close>

theorem parseStatus_fields_witness:
  "15 \<le> length status_buffer_bit1 \<and> status_buffer_bit1 ! 1 AND 15 = 1 \<and>
   (\<exists>r. fst (parseStatus status_buffer_bit1) = StatusRecord r \<and>
      unat (mode r) = 2 \<and>
      away r = Some \<lparr> day = Some 24, year = Num 2019, minute = 30, hour = Num (31 / 2),
                       month = Some 11 \<rparr> \<and>
      valve r = Some 0 \<and> targetTemp r = Num (43 / 2) \<and>
      temp (windowOpen r) = Num 12 \<and> time (windowOpen r) = Num 15 \<and>
      comfortTemp r = Num 21 \<and> ecoTemp r = Num 17 \<and> tempOffset r = Num 0)"
proof -
  have l: "15 \<le> length status_buffer_bit1" and t: "status_buffer_bit1 ! 1 AND 15 = 1"
    by (simp_all add: status_buffer_bit1_def)
  from parseStatus_fields [OF l t] obtain r where
    r: "fst (parseStatus status_buffer_bit1) = StatusRecord r"
      "unat (mode r) = unat (status_buffer_bit1 ! 2) mod 4"
      "(away r \<noteq> None) = bit (status_buffer_bit1 ! 2) 1"
      "\<forall>a. away r = Some a \<longrightarrow>
        day a = Some (status_buffer_bit1 ! 6) \<and>
        year a = Num (of_nat (unat (status_buffer_bit1 ! 7)) + 2000) \<and>
        minute a = (if odd (unat (status_buffer_bit1 ! 8)) then 30 else 0) \<and>
        hour a = Num (of_nat (unat (status_buffer_bit1 ! 8)) / 2) \<and>
        month a = Some (status_buffer_bit1 ! 9)"
      "valve r = Some (status_buffer_bit1 ! 3)"
      "targetTemp r = Num (of_nat (unat (status_buffer_bit1 ! 5)) / 2)"
      "temp (windowOpen r) = Num (of_nat (unat (status_buffer_bit1 ! 10)) / 2)"
      "time (windowOpen r) = Num (of_nat (unat (status_buffer_bit1 ! 11)) * 5)"
      "comfortTemp r = Num (of_nat (unat (status_buffer_bit1 ! 12)) / 2)"
      "ecoTemp r = Num (of_nat (unat (status_buffer_bit1 ! 13)) / 2)"
      "tempOffset r = Num ((of_nat (unat (status_buffer_bit1 ! 14)) - 7) / 2)"
    by blast
  from r(3) obtain a where a: "away r = Some a"
    by (auto simp: status_buffer_bit1_def)
  with r(4) have "a = \<lparr> day = Some 24, year = Num 2019, minute = 30, hour = Num (31 / 2),
                       month = Some 11 \<rparr>"
    by (cases a) (simp add: status_buffer_bit1_def)
  with a r l t show ?thesis
    by (simp add: status_buffer_bit1_def)
qed

text \<open>
  C5 as stated fails: with bit 0 of byte 2 set and bit 1 clear the record has no away
  schedule, and with bit 0 clear and bit 1 set it has one.
\<close>

theorem parseStatus_away_bit0_counterexample:
  "length status_buffer_bit0 = 15 \<and> status_buffer_bit0 ! 0 = 2 \<and>
   status_buffer_bit0 ! 1 AND 15 = 1 \<and> bit (status_buffer_bit0 ! 2) 0 \<and>
   map_option away (the_status (fst (parseStatus status_buffer_bit0))) = Some None \<and>
   length status_buffer_bit1 = 15 \<and> status_buffer_bit1 ! 0 = 2 \<and>
   status_buffer_bit1 ! 1 AND 15 = 1 \<and> \<not> bit (status_buffer_bit1 ! 2) 0 \<and>
   map_option away (the_status (fst (parseStatus status_buffer_bit1))) =
     Some (Some \<lparr> day = Some 24, year = Num 2019, minute = 30, hour = Num (31 / 2),
                   month = Some 11 \<rparr>)"
  by code_simp

section \<open>Codec: target temperature round trip\<close>

text \<open>
  C3: for every temperature \<open>t\<close> in half-degree steps (\<open>t \<times> 2\<close> an integer from 0 to
  255), the payload byte of \<open>setTargetTemperature(t)\<close> is \<open>t \<times> 2\<close>, and a status
  notification that carries this byte as its target temperature decodes to exactly \<open>t\<close>.
\<close>

theorem targetTemp_roundtrip:
  assumes "t * 2 \<in> \<int>" and "0 \<le> t" and "t * 2 \<le> 255"
    and "15 \<le> length data" and "data ! 1 AND 15 = 1"
    and "data ! 5 = setTargetTemperature (Num t) ! 1"
  shows "of_nat (unat (setTargetTemperature (Num t) ! 1)) = t * 2 \<and>
         (\<exists>r. fst (parseStatus data) = StatusRecord r \<and> targetTemp r = Num t)"
proof -
  from assms(1) obtain k :: int where k: "t * 2 = of_int k"
    by (auto elim: Ints_cases)
  have k0: "0 \<le> k" using assms(2) k by (metis mult_nonneg_nonneg of_int_0_le_iff zero_le_numeral)
  have k255: "k \<le> 255" using assms(3) k by (metis of_int_le_iff of_int_numeral)
  have "js_trunc (t * 2) = k" using k k0 by (simp add: js_trunc_def)
  then have b: "setTargetTemperature (Num t) ! 1 = word_of_int k"
    by (simp add: setTargetTemperature_Num)
  have u: "unat (word_of_int k :: u8) = nat k"
    using k0 k255 by (intro unat_word_of_int_u8) simp_all
  have e: "(of_nat (unat (setTargetTemperature (Num t) ! 1)) :: rat) = t * 2"
    using b u k k0 by simp
  have "fst (parseStatus data) = StatusRecord r \<Longrightarrow> targetTemp r = Num t" for r
    using parseStatus_subtype1 [OF assms(4,5)] assms(6) e by auto
  moreover have "\<exists>r. fst (parseStatus data) = StatusRecord r"
    using parseStatus_subtype1 [OF assms(4,5)] by simp
  ultimately show ?thesis using e by blast
qed

text \<open>The theorem of C3 at 21.5 degrees.\<close>

theorem targetTemp_roundtrip_witness:
  "(43 / 2 :: rat) * 2 \<in> \<int> \<and> (0 :: rat) \<le> 43 / 2 \<and> (43 / 2 :: rat) * 2 \<le> 255 \<and>
   setTargetTemperature (Num (43 / 2)) = [65, 43] \<and>
   (\<exists>r. fst (parseStatus (status_reply (setTargetTemperature (Num (43 / 2)) ! 1))) = StatusRecord r
        \<and> targetTemp r = Num (43 / 2))"
proof -
  have p: "setTargetTemperature (Num (43 / 2)) = [65, 43]" by code_simp
  have 1: "(43 / 2 :: rat) * 2 \<in> \<int>" by simp
  have 2: "(0 :: rat) \<le> 43 / 2" by simp
  have 3: "(43 / 2 :: rat) * 2 \<le> 255" by simp
  have 4: "15 \<le> length (status_reply (setTargetTemperature (Num (43 / 2)) ! 1))"
    by (simp add: status_reply_def)
  have 5: "status_reply (setTargetTemperature (Num (43 / 2)) ! 1) ! 1 AND 15 = 1"
    by (simp add: status_reply_def)
  have 6: "status_reply (setTargetTemperature (Num (43 / 2)) ! 1) ! 5
             = setTargetTemperature (Num (43 / 2)) ! 1"
    by (simp add: status_reply_def)
  from targetTemp_roundtrip [OF 1 2 3 4 5 6] p 1 2 3 show ?thesis by blast
qed

section \<open>Session: what waits on what\<close>

lemma plain_mono: "same_awaiters cs cs' \<Longrightarrow> plain cs c \<Longrightarrow> plain cs' c"
  by (auto simp: same_awaiters_def plain_def)

lemma awaiter_ok_mono: "same_awaiters cs cs' \<Longrightarrow> awaiter_ok cs a \<Longrightarrow> awaiter_ok cs' a"
  by (cases a) (simp_all add: plain_mono)

lemma session_inv_updates [simp]:
  "session_inv (pstate_update f1 s) = session_inv s"
  "session_inv (isConnected_update f2 s) = session_inv s"
  "session_inv (have_dataCharacteristic_update f3 s) = session_inv s"
  "session_inv (have_commandCharacteristic_update f4 s) = session_inv s"
  "session_inv (connect_once_update f5 s) = session_inv s"
  "session_inv (disconnect_once_update f6 s) = session_inv s"
  "session_inv (data_handlers_update f7 s) = session_inv s"
  "session_inv (timers_update f8 s) = session_inv s"
  "session_inv (pending_discover_update f9 s) = session_inv s"
  "session_inv (pending_subscribe_update f10 s) = session_inv s"
  "session_inv (pending_write_update f11 s) = session_inv s"
  "session_inv (adapter_calls_update f12 s) = session_inv s"
  "session_inv (logged_update f13 s) = session_inv s"
  "session_inv (clock_update f14 s) = session_inv s"
  by (simp_all add: session_inv_def)

lemma put_awaiter [simp]: "cell_awaiter (cells (put c p s) ! i) = cell_awaiter (cells s ! i)"
  by (cases "i = c"; cases "c < length (cells s)") (simp_all add: put_def list_update_beyond)

lemma put_fields [simp]:
  "dataEvents (put c p s) = dataEvents s"
  "length (cells (put c p s)) = length (cells s)"
  "pstate (put c p s) = pstate s"
  "adapter_calls (put c p s) = adapter_calls s"
  "timers (put c p s) = timers s"
  "logged (put c p s) = logged s"
  "have_commandCharacteristic (put c p s) = have_commandCharacteristic s"
  by (simp_all add: put_def nth_list_update)

lemma put_state:
  "c < length (cells s) \<Longrightarrow>
   cell_state (cells (put c p s) ! i) = (if i = c then p else cell_state (cells s ! i))"
  by (simp add: put_def nth_list_update)

lemma put_inv: "session_inv s \<Longrightarrow> session_inv (put c p s)"
proof -
  assume a: "session_inv s"
  have sa: "same_awaiters (cells s) (cells (put c p s))" by (simp add: same_awaiters_def)
  have 1: "list_all (\<lambda>l. plain (cells (put c p s)) (snd l)) (dataEvents (put c p s))"
    using a sa by (auto simp: session_inv_def list_all_iff plain_mono)
  have "awaiter_ok (cells (put c p s)) (cell_awaiter x)" if "x \<in> set (cells (put c p s))" for x
  proof -
    from that obtain i where i: "i < length (cells s)" "x = cells (put c p s) ! i"
      by (metis in_set_conv_nth put_fields(2))
    then have "cell_awaiter x = cell_awaiter (cells s ! i)" by simp
    moreover have "awaiter_ok (cells s) (cell_awaiter (cells s ! i))"
      using a i(1) by (simp add: session_inv_def list_all_length)
    ultimately show ?thesis using sa awaiter_ok_mono by simp
  qed
  with 1 show ?thesis by (simp add: session_inv_def list_all_iff)
qed

lemma new_cell_fields [simp]:
  "fst (new_cell a s) = length (cells s)"
  "cells (snd (new_cell a s)) = cells s @ [\<lparr>cell_state = Pending, cell_awaiter = a\<rparr>]"
  "dataEvents (snd (new_cell a s)) = dataEvents s"
  "pstate (snd (new_cell a s)) = pstate s"
  "adapter_calls (snd (new_cell a s)) = adapter_calls s"
  "timers (snd (new_cell a s)) = timers s"
  "logged (snd (new_cell a s)) = logged s"
  "have_commandCharacteristic (snd (new_cell a s)) = have_commandCharacteristic s"
  by (simp_all add: new_cell_def)

lemma new_cell_inv:
  assumes "session_inv s" "awaiter_ok (cells s) a"
  shows "session_inv (snd (new_cell a s))"
proof -
  have sa: "same_awaiters (cells s) (cells (snd (new_cell a s)))"
    by (simp add: same_awaiters_def nth_append)
  show ?thesis
    using assms sa
    by (auto simp: session_inv_def list_all_iff plain_mono awaiter_ok_mono)
qed

lemma new_cell_plain: "plain (cells (snd (new_cell NoAwaiter s))) (length (cells s))"
  by (simp add: plain_def)

lemma set_timer_fields [simp]:
  "cells (set_timer c s) = cells s"
  "dataEvents (set_timer c s) = dataEvents s"
  "pstate (set_timer c s) = pstate s"
  "adapter_calls (set_timer c s) = adapter_calls s"
  "timers (set_timer c s) = timers s @ [(c, clock s + timeout_ms)]"
  "logged (set_timer c s) = logged s"
  "have_commandCharacteristic (set_timer c s) = have_commandCharacteristic s"
  by (simp_all add: set_timer_def)

lemma set_timer_inv [simp]: "session_inv (set_timer c s) = session_inv s"
  by (simp add: set_timer_def)

lemma settle_plain_inv: "session_inv s \<Longrightarrow> session_inv (settle_plain c p s)"
  by (simp add: settle_plain_def put_inv)

lemma after_write_inv: "session_inv s \<Longrightarrow> session_inv (after_write w s)"
  by (auto simp: after_write_def settle_plain_inv split: awaiter.splits promise.splits)

lemma settle_write_inv: "session_inv s \<Longrightarrow> session_inv (settle_write w p s)"
  by (simp add: settle_write_def after_write_inv put_inv)

lemma writeCharacteristic_inv:
  assumes "session_inv s"
  shows "session_inv (writeCharacteristic cmd data s)"
proof -
  let ?s1 = "snd (new_cell (CommandWrite cmd) s)"
  have 1: "session_inv ?s1"
    using assms by (rule new_cell_inv) simp
  have 2: "session_inv (?s1\<lparr>adapter_calls := adapter_calls ?s1 @ [Call_write data],
                            pending_write := pending_write ?s1 @ [length (cells s)]\<rparr>)"
    using 1 by (simp add: session_inv_updates)
  have 3: "session_inv (put (length (cells s)) (Rejected ThrownTypeError) ?s1)"
    using 1 by (rule put_inv)
  show ?thesis
    unfolding writeCharacteristic_def
    using 2 3 by (simp add: split_beta Let_def after_write_inv del: new_cell_fields(2))
qed

lemma listener_added_inv:
  assumes "session_inv s" "plain (cells s) cmd"
  shows "session_inv (s\<lparr>dataEvents := dataEvents s @ [(event, cmd)]\<rparr>)"
  using assms by (simp add: session_inv_def)

lemma after_connect_inv:
  assumes "session_inv s" "cc < length (cells s)"
  shows "session_inv (after_connect cc s)"
proof (cases "cell_awaiter (cells s ! cc)")
  case (SendCommand cmd buffer event)
  have "awaiter_ok (cells s) (cell_awaiter (cells s ! cc))"
    using assms by (simp add: session_inv_def list_all_length)
  then have p: "plain (cells s) cmd" using SendCommand by simp
  show ?thesis
    using SendCommand assms(1) p
    by (simp add: after_connect_def settle_plain_inv writeCharacteristic_inv listener_added_inv
        split: promise.splits)
qed (use assms in \<open>simp_all add: after_connect_def\<close>)

lemma settle_connect_inv: "session_inv s \<Longrightarrow> session_inv (settle_connect cc p s)"
  by (simp add: settle_connect_def is_pending_def after_connect_inv put_inv)

lemma after_resolve_inv: "session_inv s \<Longrightarrow> session_inv (after_resolve rc s)"
  by (auto simp: after_resolve_def settle_connect_inv session_inv_updates
      split: awaiter.splits promise.splits)

lemma settle_resolve_inv: "session_inv s \<Longrightarrow> session_inv (settle_resolve rc p s)"
  by (simp add: settle_resolve_def after_resolve_inv put_inv)

lemma settle_inv: "session_inv s \<Longrightarrow> session_inv (settle c p s)"
  by (simp add: settle_def settle_plain_inv settle_write_inv settle_connect_inv
      settle_resolve_inv split: awaiter.splits)

lemma fold_inv:
  assumes "\<And>x s. session_inv s \<Longrightarrow> session_inv (f x s)"
  shows "session_inv s \<Longrightarrow> session_inv (fold f xs s)"
  by (induction xs arbitrary: s) (simp_all add: assms)

lemma resolveCharacteristics_inv:
  assumes "session_inv s"
  shows "session_inv (resolveCharacteristics cc s)"
proof -
  have "session_inv (snd (new_cell (ConnectHandler cc) s))"
    using assms by (rule new_cell_inv) simp
  then show ?thesis
    by (simp add: resolveCharacteristics_def split_beta Let_def session_inv_updates
        del: new_cell_fields(2))
qed

lemma connect_exec_inv:
  assumes "session_inv s" "awaiter_ok (cells s) a"
  shows "session_inv (snd (connect_exec a s))"
proof -
  have "session_inv (snd (new_cell a s))"
    using assms by (rule new_cell_inv)
  then show ?thesis
    by (simp add: connect_exec_def split_beta Let_def session_inv_updates put_inv
        del: new_cell_fields(2))
qed

lemma connect_inv: "session_inv s \<Longrightarrow> session_inv (snd (connect s))"
  by (simp add: connect_def connect_exec_inv)

lemma disconnect_inv:
  assumes "session_inv s"
  shows "session_inv (snd (disconnect s))"
proof -
  have "session_inv (snd (new_cell NoAwaiter s))"
    using assms by (rule new_cell_inv) simp
  then show ?thesis
    by (simp add: disconnect_def split_beta Let_def session_inv_updates put_inv
        del: new_cell_fields(2))
qed

lemma connect_exec_cell:
  "fst (connect_exec a s) = length (cells s)"
  "length (cells (snd (connect_exec a s))) = Suc (length (cells s))"
  by (simp_all add: connect_exec_def split_beta Let_def)

lemma sendCommand_inv:
  assumes "session_inv s"
  shows "session_inv (snd (sendCommand buffer event s))"
proof -
  let ?s1 = "snd (new_cell NoAwaiter s)"
  let ?cmd = "length (cells s)"
  have 1: "session_inv ?s1"
    using assms by (rule new_cell_inv) simp
  have "awaiter_ok (cells ?s1) (SendCommand ?cmd buffer event)"
    using new_cell_plain [of s] by (simp del: new_cell_fields(2))
  with 1 have 2: "session_inv (snd (connect_exec (SendCommand ?cmd buffer event) ?s1))"
    by (rule connect_exec_inv)
  have 3: "fst (connect_exec (SendCommand ?cmd buffer event) ?s1)
            < length (cells (set_timer ?cmd (snd (connect_exec (SendCommand ?cmd buffer event) ?s1))))"
    by (simp add: connect_exec_cell)
  show ?thesis
    unfolding sendCommand_def
    using 2 3 by (simp add: split_beta Let_def after_connect_inv del: new_cell_fields(2))
qed

lemma emit_inv:
  assumes "session_inv s"
  shows "session_inv (emit event v s)"
proof -
  have "session_inv (s\<lparr>dataEvents := filter (\<lambda>l. fst l \<noteq> event) (dataEvents s)\<rparr>)"
    using assms by (auto simp: session_inv_def list_all_iff)
  then show ?thesis
    unfolding emit_def by (rule fold_inv [rotated]) (rule settle_inv)
qed

lemma log_inv [simp]: "session_inv (log ls s) = session_inv s"
  by (simp add: log_def session_inv_updates)

lemma dataHandler_inv: "session_inv s \<Longrightarrow> session_inv (dataHandler data s)"
  by (simp add: dataHandler_def Let_def split_beta emit_inv split: option.splits)

lemma funpow_inv:
  assumes "\<And>s. session_inv s \<Longrightarrow> session_inv (f s)"
  shows "session_inv s \<Longrightarrow> session_inv ((f ^^ n) s)"
  by (induction n) (simp_all add: assms)

lemma step_inv:
  assumes "session_inv s"
  shows "session_inv (step e s)"
proof (cases e)
  case (AdapterConnect err)
  have "session_inv (s\<lparr>pstate := (if err = None then Connected else PError),
                       isConnected := (if err = None then True else isConnected s),
                       connect_once := []\<rparr>)"
    using assms by (simp add: session_inv_updates)
  then show ?thesis
    unfolding step_def AdapterConnect event.case Let_def
    by (rule fold_inv [rotated]) (rule resolveCharacteristics_inv)
next
  case (AdapterDisconnect err)
  have "session_inv (s\<lparr>pstate := Disconnected,
                       isConnected := (if err = None then False else isConnected s),
                       disconnect_once := []\<rparr>)"
    using assms by (simp add: session_inv_updates)
  then show ?thesis
    unfolding step_def AdapterDisconnect event.case Let_def
    by (rule fold_inv [rotated]) (rule settle_inv)
next
  case (ServicesDiscovered rc err svc)
  then show ?thesis
    using assms
    by (auto simp: step_def Let_def session_inv_updates intro!: settle_inv
        split: option.splits service.splits)
next
  case (Subscribed cc err)
  then show ?thesis
    using assms
    by (auto simp: step_def Let_def session_inv_updates intro!: settle_inv split: option.splits)
next
  case (Written w err)
  then show ?thesis
    using assms
    by (auto simp: step_def Let_def session_inv_updates intro!: settle_inv split: option.splits)
next
  case (Notify data)
  then show ?thesis
    using assms by (simp add: step_def funpow_inv dataHandler_inv)
next
  case (Elapse d)
  have "session_inv (s\<lparr>clock := clock s + max 0 d,
                       timers := filter (\<lambda>t. clock s + max 0 d < snd t) (timers s)\<rparr>)"
    using assms by simp
  then show ?thesis
    unfolding step_def Elapse event.case Let_def
    by (rule fold_inv [rotated]) (rule settle_inv)
qed

lemma new_session_inv: "session_inv (new_session st)"
  by (simp add: session_inv_def new_session_def)

lemma reachable_inv: "reachable s \<Longrightarrow> session_inv s"
  by (induction rule: reachable.induct)
     (simp_all add: new_session_inv connect_inv disconnect_inv sendCommand_inv step_inv)

section \<open>Session: notifications with an unknown status sub-type\<close>

lemma settle_is_plain: "plain (cells s) c \<Longrightarrow> settle c p s = settle_plain c p s"
  by (simp add: settle_def plain_def)

lemma settle_plain_fields [simp]:
  "dataEvents (settle_plain c p s) = dataEvents s"
  "logged (settle_plain c p s) = logged s"
  "length (cells (settle_plain c p s)) = length (cells s)"
  "cell_awaiter (cells (settle_plain c p s) ! i) = cell_awaiter (cells s ! i)"
  "pstate (settle_plain c p s) = pstate s"
  "adapter_calls (settle_plain c p s) = adapter_calls s"
  by (simp_all add: settle_plain_def)

lemma settle_plain_state:
  "cell_state (cells (settle_plain c p s) ! i) =
     (if i = c \<and> is_pending c s then p else cell_state (cells s ! i))"
  by (auto simp: settle_plain_def is_pending_def put_state)

lemma settle_plain_pending:
  "is_pending i (settle_plain c (Fulfilled v) s) = (is_pending i s \<and> i \<noteq> c)"
  by (auto simp: is_pending_def settle_plain_state)

lemma settle_plain_plain [simp]: "plain (cells (settle_plain c p s)) i = plain (cells s) i"
  by (simp add: plain_def)

lemma fold_settle_plain_fields:
  assumes "list_all (\<lambda>l. plain (cells s) (snd l)) ls"
  shows "dataEvents (fold (\<lambda>l. settle (snd l) (Fulfilled v)) ls s) = dataEvents s"
    and "logged (fold (\<lambda>l. settle (snd l) (Fulfilled v)) ls s) = logged s"
    and "pstate (fold (\<lambda>l. settle (snd l) (Fulfilled v)) ls s) = pstate s"
  using assms
  by (induction ls arbitrary: s) (simp_all add: settle_is_plain)

lemma fold_settle_plain_state:
  assumes "list_all (\<lambda>l. plain (cells s) (snd l)) ls"
  shows "cell_state (cells (fold (\<lambda>l. settle (snd l) (Fulfilled v)) ls s) ! i) =
            (if i \<in> snd ` set ls \<and> is_pending i s then Fulfilled v
             else cell_state (cells s ! i))"
  using assms
proof (induction ls arbitrary: s)
  case Nil
  then show ?case by simp
next
  case (Cons l ls)
  let ?s1 = "settle_plain (snd l) (Fulfilled v) s"
  have e: "settle (snd l) (Fulfilled v) s = ?s1"
    using Cons.prems by (simp add: settle_is_plain)
  have "list_all (\<lambda>l. plain (cells ?s1) (snd l)) ls"
    using Cons.prems by simp
  from Cons.IH [OF this]
  have ih: "cell_state (cells (fold (\<lambda>l. settle (snd l) (Fulfilled v)) ls ?s1) ! i) =
            (if i \<in> snd ` set ls \<and> is_pending i ?s1 then Fulfilled v
             else cell_state (cells ?s1 ! i))" .
  have f: "fold (\<lambda>l. settle (snd l) (Fulfilled v)) (l # ls) s
             = fold (\<lambda>l. settle (snd l) (Fulfilled v)) ls ?s1"
    by (simp add: e)
  show ?case
  proof (cases "i = snd l")
    case True
    then have "\<not> is_pending i ?s1" by (simp add: settle_plain_pending)
    then show ?thesis
      unfolding f ih using True by (simp add: settle_plain_state)
  next
    case False
    then have "is_pending i ?s1 = is_pending i s" by (simp add: settle_plain_pending)
    then show ?thesis
      unfolding f ih using False by (simp add: settle_plain_state)
  qed
qed

lemma emit_listeners:
  assumes "session_inv s"
  shows "dataEvents (emit event v s) = filter (\<lambda>l. fst l \<noteq> event) (dataEvents s)"
    and "logged (emit event v s) = logged s"
    and "pstate (emit event v s) = pstate s"
    and "cell_state (cells (emit event v s) ! c) =
           (if (event, c) \<in> set (dataEvents s) \<and> is_pending c s then Fulfilled v
            else cell_state (cells s ! c))"
proof -
  let ?s0 = "s\<lparr>dataEvents := filter (\<lambda>l. fst l \<noteq> event) (dataEvents s)\<rparr>"
  let ?ls = "filter (\<lambda>l. fst l = event) (dataEvents s)"
  have "list_all (\<lambda>l. plain (cells ?s0) (snd l)) ?ls"
    using assms by (simp add: session_inv_def list_all_iff)
  note f = fold_settle_plain_fields [OF this, of v] fold_settle_plain_state [OF this, of v c]
  have p: "is_pending c ?s0 = is_pending c s" by (simp add: is_pending_def)
  have m: "(c \<in> snd ` set ?ls) = ((event, c) \<in> set (dataEvents s))" by force
  show "dataEvents (emit event v s) = filter (\<lambda>l. fst l \<noteq> event) (dataEvents s)"
    using f by (simp add: emit_def)
  show "logged (emit event v s) = logged s"
    using f by (simp add: emit_def)
  show "pstate (emit event v s) = pstate s"
    using f by (simp add: emit_def)
  show "cell_state (cells (emit event v s) ! c) =
           (if (event, c) \<in> set (dataEvents s) \<and> is_pending c s then Fulfilled v
            else cell_state (cells s ! c))"
    using f p m by (simp add: emit_def)
qed

text \<open>
  C1, as the code has it: in every reachable session, a notification whose first byte is
  \<open>0x02\<close> and whose sub-type nibble is not 1 decodes to the empty record, prints the
  buffer and \<open>unknown status\<close> on the console, and is then emitted as a \<open>status\<close>
  event all the same: every single-shot \<open>status\<close> listener is removed and the pending
  command it belongs to is resolved with the empty record.
\<close>

theorem unknown_status_resolves_listeners:
  assumes "reachable s" and "byte_at data 0 = Some 2" and "js_band (byte_at data 1) 15 \<noteq> 1"
  shows "parseStatus data = (EmptyObject, [''unknown status'']) \<and>
    logged (dataHandler data s) =
      logged s @ [Console_buffer data, Debug_text ''received status message'',
                  Console_text ''unknown status''] \<and>
    dataEvents (dataHandler data s) = filter (\<lambda>l. fst l \<noteq> ''status'') (dataEvents s) \<and>
    (\<forall>c. (''status'', c) \<in> set (dataEvents s) \<and> is_pending c s \<longrightarrow>
       cell_state (cells (dataHandler data s) ! c) = Fulfilled (StatusInfo EmptyObject))"
proof -
  have ps: "parseStatus data = (EmptyObject, [''unknown status''])"
    using assms(3) by (simp add: parseStatus_def)
  let ?s1 = "log [Debug_text ''received status message'', Console_text ''unknown status'']
               (log [Console_buffer data] s)"
  have dh: "dataHandler data s = emit ''status'' (StatusInfo EmptyObject) ?s1"
    using assms(2) ps by (simp add: dataHandler_def)
  have inv: "session_inv ?s1"
    using reachable_inv [OF assms(1)] by simp
  have l: "logged ?s1 = logged s @ [Console_buffer data, Debug_text ''received status message'',
                  Console_text ''unknown status'']"
    "dataEvents ?s1 = dataEvents s" "cells ?s1 = cells s"
    by (simp_all add: log_def)
  have p: "is_pending c ?s1 = is_pending c s" for c
    by (simp add: is_pending_def l)
  show ?thesis
    using ps emit_listeners [OF inv, of "''status''" "StatusInfo EmptyObject"]
    by (simp add: dh l p)
qed



lemma reachable_run: "reachable s \<Longrightarrow> reachable (run es s)"
  unfolding run_def by (induction es arbitrary: s) (simp_all add: reachable.stepped)

lemma reachable_awaiting_status: "reachable awaiting_status"
  unfolding awaiting_status_def
  by (intro reachable_run reachable.commanded reachable.constructed)

lemma awaiting_status_listener:
  "(''status'', 0) \<in> set (dataEvents awaiting_status)" "is_pending 0 awaiting_status"
  "pstate awaiting_status = Connected" "have_commandCharacteristic awaiting_status"
  "length (cells awaiting_status) = 4" "data_handlers awaiting_status = 1"
  by code_simp+

text \<open>The theorem of C1 at the waiting \<open>getStatus\<close> and a notification of sub-type 2.\<close>

theorem unknown_status_resolves_listeners_witness:
  "reachable awaiting_status \<and> byte_at unknown_status 0 = Some 2 \<and>
   js_band (byte_at unknown_status 1) 15 \<noteq> 1 \<and>
   (''status'', 0) \<in> set (dataEvents awaiting_status) \<and> is_pending 0 awaiting_status \<and>
   cell_state (cells (dataHandler unknown_status awaiting_status) ! 0)
     = Fulfilled (StatusInfo EmptyObject)"
proof -
  have b: "byte_at unknown_status 0 = Some 2" "js_band (byte_at unknown_status 1) 15 \<noteq> 1"
    by (simp_all add: unknown_status_def byte_at_def js_band_def)
  from unknown_status_resolves_listeners [OF reachable_awaiting_status b]
  show ?thesis
    using reachable_awaiting_status b awaiting_status_listener by blast
qed

text \<open>
  C1 as stated fails: the notification of sub-type 2 resolves the pending \<open>getStatus\<close>
  (cell 0) with the empty record and removes its listener.
\<close>

theorem unknown_status_resolves_command_counterexample:
  "unknown_status ! 0 = 2 \<and> unknown_status ! 1 AND 15 = 2 \<and>
   (''status'', 0) \<in> set (dataEvents awaiting_status) \<and>
   cell_state (cells awaiting_status ! 0) = Pending \<and>
   cell_state (cells (step (Notify unknown_status) awaiting_status) ! 0)
     = Fulfilled (StatusInfo EmptyObject) \<and>
   dataEvents (step (Notify unknown_status) awaiting_status) = []"
  by code_simp

section \<open>Session: promises and their timers\<close>

lemma clock_fields [simp]:
  "clock (put c p s) = clock s"
  "clock (snd (new_cell a s)) = clock s"
  "clock (set_timer c s) = clock s"
  by (simp_all add: put_def new_cell_def set_timer_def)

lemma advances_updates [simp]:
  "advances N s (pstate_update f1 s') = advances N s s'"
  "advances N s (isConnected_update f2 s') = advances N s s'"
  "advances N s (have_dataCharacteristic_update f3 s') = advances N s s'"
  "advances N s (have_commandCharacteristic_update f4 s') = advances N s s'"
  "advances N s (connect_once_update f5 s') = advances N s s'"
  "advances N s (disconnect_once_update f6 s') = advances N s s'"
  "advances N s (data_handlers_update f7 s') = advances N s s'"
  "advances N s (dataEvents_update f8 s') = advances N s s'"
  "advances N s (pending_discover_update f9 s') = advances N s s'"
  "advances N s (pending_subscribe_update f10 s') = advances N s s'"
  "advances N s (pending_write_update f11 s') = advances N s s'"
  "advances N s (adapter_calls_update f12 s') = advances N s s'"
  "advances N s (logged_update f13 s') = advances N s s'"
  by (simp_all add: advances_def)

lemma advances_updates_left [simp]:
  "advances N (pstate_update f1 s) s' = advances N s s'"
  "advances N (isConnected_update f2 s) s' = advances N s s'"
  "advances N (have_dataCharacteristic_update f3 s) s' = advances N s s'"
  "advances N (have_commandCharacteristic_update f4 s) s' = advances N s s'"
  "advances N (connect_once_update f5 s) s' = advances N s s'"
  "advances N (disconnect_once_update f6 s) s' = advances N s s'"
  "advances N (data_handlers_update f7 s) s' = advances N s s'"
  "advances N (dataEvents_update f8 s) s' = advances N s s'"
  "advances N (pending_discover_update f9 s) s' = advances N s s'"
  "advances N (pending_subscribe_update f10 s) s' = advances N s s'"
  "advances N (pending_write_update f11 s) s' = advances N s s'"
  "advances N (adapter_calls_update f12 s) s' = advances N s s'"
  "advances N (logged_update f13 s) s' = advances N s s'"
  by (simp_all add: advances_def)

lemma advances_refl [simp]: "advances N s s"
  by (simp add: advances_def)

lemma advances_length: "advances N s s' \<Longrightarrow> length (cells s) \<le> length (cells s')"
  by (simp add: advances_def)

lemma advances_trans:
  assumes a: "advances N s s'" and b: "advances {} s' s''"
  shows "advances N s s''"
proof -
  have 1: "clock s'' = clock s" "clock s' = clock s"
    using a b by (simp_all add: advances_def)
  have 2: "length (cells s) \<le> length (cells s')" "length (cells s') \<le> length (cells s'')"
    using a b by (simp_all add: advances_def)
  have 3: "cell_state (cells s'' ! c) = cell_state (cells s ! c)"
    if "c < length (cells s)" "cell_state (cells s ! c) \<noteq> Pending" for c
  proof -
    have "cell_state (cells s' ! c) = cell_state (cells s ! c)"
      using a that by (simp add: advances_def)
    moreover have "c < length (cells s')" using that 2 by simp
    ultimately show ?thesis using b that by (simp add: advances_def)
  qed
  have 4: "set (timers s) \<subseteq> set (timers s'')"
    using a b unfolding advances_def by blast
  have 5: "t \<in> set (timers s) \<or>
           (length (cells s) \<le> fst t \<and> fst t < length (cells s'') \<and>
            snd t = clock s + timeout_ms)" if "t \<in> set (timers s'')" for t
  proof -
    from b that have "t \<in> set (timers s') \<or>
           (length (cells s') \<le> fst t \<and> fst t < length (cells s'') \<and>
            snd t = clock s' + timeout_ms)"
      unfolding advances_def by blast
    then show ?thesis
    proof
      assume "t \<in> set (timers s')"
      with a have "t \<in> set (timers s) \<or>
           (length (cells s) \<le> fst t \<and> fst t < length (cells s') \<and>
            snd t = clock s + timeout_ms)"
        unfolding advances_def by blast
      then show ?thesis using 2 by auto
    next
      assume "length (cells s') \<le> fst t \<and> fst t < length (cells s'') \<and>
            snd t = clock s' + timeout_ms"
      then show ?thesis using 1 2 by simp
    qed
  qed
  have 6: "c \<in> N \<or> c \<in> fst ` set (timers s'')"
    if c: "c < length (cells s'')" "length (cells s) \<le> c" "cell_state (cells s'' ! c) = Pending"
    for c
  proof (cases "c < length (cells s')")
    case True
    have "cell_state (cells s' ! c) = Pending"
    proof (rule ccontr)
      assume "cell_state (cells s' ! c) \<noteq> Pending"
      with b True have "cell_state (cells s'' ! c) = cell_state (cells s' ! c)"
        by (simp add: advances_def)
      with c(3) \<open>cell_state (cells s' ! c) \<noteq> Pending\<close> show False by simp
    qed
    with a True c(2) have "c \<in> N \<or> c \<in> fst ` set (timers s')"
      by (simp add: advances_def)
    moreover have "set (timers s') \<subseteq> set (timers s'')"
      using b by (simp add: advances_def)
    ultimately show ?thesis by blast
  next
    case False
    with b c show ?thesis by (simp add: advances_def)
  qed
  show ?thesis
    unfolding advances_def using 1 2 3 4 5 6 by (intro conjI allI ballI impI) simp_all
qed

lemma advances_new_cell: "advances {length (cells s)} s (snd (new_cell a s))"
  by (auto simp: advances_def nth_append less_Suc_eq)

lemma advances_set_timer:
  assumes "advances N s0 s" "length (cells s0) \<le> c" "c < length (cells s)"
  shows "advances (N - {c}) s0 (set_timer c s)"
proof -
  have cl: "clock s = clock s0"
    using assms(1) by (simp add: advances_def)
  have t: "timers (set_timer c s) = timers s @ [(c, clock s0 + timeout_ms)]"
    by (simp add: cl)
  have 6: "x \<in> N - {c} \<or> x \<in> fst ` set (timers (set_timer c s))"
    if "x < length (cells s)" "length (cells s0) \<le> x" "cell_state (cells s ! x) = Pending"
    for x
  proof (cases "x = c")
    case True
    then show ?thesis by (simp add: t)
  next
    case False
    from assms(1) that have "x \<in> N \<or> x \<in> fst ` set (timers s)"
      by (simp add: advances_def)
    then show ?thesis using False by (auto simp: t)
  qed
  have 5: "x \<in> set (timers s0) \<or>
           (length (cells s0) \<le> fst x \<and> fst x < length (cells s) \<and>
            snd x = clock s0 + timeout_ms)" if "x \<in> set (timers (set_timer c s))" for x
  proof (cases "x \<in> set (timers s)")
    case True
    with assms(1) show ?thesis unfolding advances_def by blast
  next
    case False
    with that have "x = (c, clock s0 + timeout_ms)" by (simp add: cl)
    then show ?thesis using assms(2,3) by simp
  qed
  have 4: "set (timers s0) \<subseteq> set (timers (set_timer c s))"
    using assms(1) by (auto simp: advances_def t)
  have 123: "clock (set_timer c s) = clock s0" "length (cells s0) \<le> length (cells (set_timer c s))"
    "\<forall>x < length (cells s0). cell_state (cells s0 ! x) \<noteq> Pending \<longrightarrow>
        cell_state (cells (set_timer c s) ! x) = cell_state (cells s0 ! x)"
    using assms(1) by (simp_all add: advances_def set_timer_def)
  show ?thesis
    unfolding advances_def using 123 4 5 6 by (intro conjI allI ballI impI) simp_all
qed

lemma advances_put:
  assumes "is_pending c s"
  shows "advances {} s (put c p s)"
  using assms by (auto simp: advances_def is_pending_def put_state)

lemma advances_settle_plain: "advances {} s (settle_plain c p s)"
  by (simp add: settle_plain_def advances_put)

lemma advances_after_write: "advances {} s (after_write w s)"
  by (simp add: after_write_def advances_settle_plain split: awaiter.splits promise.splits)

lemma advances_settle_write: "advances {} s (settle_write w p s)"
  using advances_trans [OF advances_put advances_after_write]
  by (simp add: settle_write_def)

lemma advances_writeCharacteristic: "advances {} s (writeCharacteristic cmd data s)"
proof -
  let ?w = "length (cells s)"
  let ?s1 = "snd (new_cell (CommandWrite cmd) s)"
  let ?s2 = "if have_commandCharacteristic ?s1
             then ?s1\<lparr>adapter_calls := adapter_calls ?s1 @ [Call_write data],
                     pending_write := pending_write ?s1 @ [?w]\<rparr>
             else put ?w (Rejected ThrownTypeError) ?s1"
  have 1: "advances {?w} s ?s1" by (rule advances_new_cell)
  have "is_pending ?w ?s1" by (simp add: is_pending_def)
  then have "advances {} ?s1 (put ?w (Rejected ThrownTypeError) ?s1)" by (rule advances_put)
  from advances_trans [OF 1 this] 1 have 2: "advances {?w} s ?s2"
    by (simp del: new_cell_fields)
  have "?w < length (cells ?s2)" by simp
  from advances_set_timer [OF 2 _ this] have 3: "advances {} s (set_timer ?w ?s2)" by simp
  have eq: "writeCharacteristic cmd data s = after_write ?w (set_timer ?w ?s2)"
    by (simp add: writeCharacteristic_def split_beta Let_def)
  show ?thesis
    unfolding eq by (rule advances_trans [OF 3 advances_after_write])
qed

lemma advances_after_connect: "advances {} s (after_connect cc s)"
proof (cases "cell_awaiter (cells s ! cc)")
  case (SendCommand cmd buffer event)
  have "advances {} s
          (writeCharacteristic cmd buffer (s\<lparr>dataEvents := dataEvents s @ [(event, cmd)]\<rparr>))"
    using advances_writeCharacteristic [of "s\<lparr>dataEvents := dataEvents s @ [(event, cmd)]\<rparr>"]
    by simp
  then show ?thesis
    using SendCommand by (simp add: after_connect_def advances_settle_plain split: promise.splits)
qed (simp_all add: after_connect_def)

lemma advances_settle_connect: "advances {} s (settle_connect cc p s)"
  using advances_trans [OF advances_put advances_after_connect]
  by (simp add: settle_connect_def)

lemma advances_connect_exec: "advances {} s (snd (connect_exec a s))"
proof -
  let ?c = "length (cells s)"
  let ?s1 = "snd (new_cell a s)"
  let ?s2 = "if pstate ?s1 = Connected then put ?c (Fulfilled NoValue) ?s1
             else ?s1\<lparr>connect_once := connect_once ?s1 @ [?c],
                     adapter_calls := adapter_calls ?s1 @ [Call_connect],
                     pstate := Connecting\<rparr>"
  have 1: "advances {?c} s ?s1" by (rule advances_new_cell)
  have "is_pending ?c ?s1" by (simp add: is_pending_def)
  then have "advances {} ?s1 (put ?c (Fulfilled NoValue) ?s1)" by (rule advances_put)
  from advances_trans [OF 1 this] 1 have 2: "advances {?c} s ?s2"
    by (simp del: new_cell_fields)
  have "?c < length (cells ?s2)" by simp
  from advances_set_timer [OF 2 _ this] have 3: "advances {} s (set_timer ?c ?s2)" by simp
  have eq: "snd (connect_exec a s) = set_timer ?c ?s2"
    by (simp add: connect_exec_def split_beta Let_def)
  show ?thesis
    unfolding eq by (rule 3)
qed

lemma advances_connect: "advances {} s (snd (connect s))"
  by (simp add: connect_def advances_connect_exec)

lemma advances_disconnect: "advances {} s (snd (disconnect s))"
proof -
  let ?c = "length (cells s)"
  let ?s1 = "snd (new_cell NoAwaiter s)"
  let ?s2 = "if pstate ?s1 = Disconnected then put ?c (Fulfilled NoValue) ?s1
             else ?s1\<lparr>disconnect_once := disconnect_once ?s1 @ [?c],
                     adapter_calls := adapter_calls ?s1 @ [Call_disconnect],
                     pstate := Disconnecting\<rparr>"
  have 1: "advances {?c} s ?s1" by (rule advances_new_cell)
  have "is_pending ?c ?s1" by (simp add: is_pending_def)
  then have "advances {} ?s1 (put ?c (Fulfilled NoValue) ?s1)" by (rule advances_put)
  from advances_trans [OF 1 this] 1 have 2: "advances {?c} s ?s2"
    by (simp del: new_cell_fields)
  have "?c < length (cells ?s2)" by simp
  from advances_set_timer [OF 2 _ this] have 3: "advances {} s (set_timer ?c ?s2)" by simp
  have eq: "snd (disconnect s) = set_timer ?c ?s2"
    by (simp add: disconnect_def split_beta Let_def)
  show ?thesis
    unfolding eq by (rule 3)
qed

lemma advances_resolveCharacteristics: "advances {} s (resolveCharacteristics cc s)"
proof -
  let ?c = "length (cells s)"
  let ?s1 = "snd (new_cell (ConnectHandler cc) s)"
  let ?s2 = "?s1\<lparr>adapter_calls := adapter_calls ?s1 @ [Call_discoverAllServicesAndCharacteristics],
                 pending_discover := pending_discover ?s1 @ [?c]\<rparr>"
  have 1: "advances {?c} s ?s1" by (rule advances_new_cell)
  then have 2: "advances {?c} s ?s2" by (simp del: new_cell_fields)
  have "?c < length (cells ?s2)" by simp
  from advances_set_timer [OF 2 _ this] have 3: "advances {} s (set_timer ?c ?s2)" by simp
  have eq: "resolveCharacteristics cc s = set_timer ?c ?s2"
    by (simp add: resolveCharacteristics_def split_beta Let_def)
  show ?thesis
    unfolding eq by (rule 3)
qed

lemma advances_after_resolve: "advances {} s (after_resolve rc s)"
  by (simp add: after_resolve_def advances_settle_connect split: awaiter.splits promise.splits)

lemma advances_settle_resolve: "advances {} s (settle_resolve rc p s)"
  using advances_trans [OF advances_put advances_after_resolve]
  by (simp add: settle_resolve_def)

lemma advances_settle: "advances {} s (settle c p s)"
  by (simp add: settle_def advances_settle_plain advances_settle_write advances_settle_connect
      advances_settle_resolve split: awaiter.splits)

lemma advances_fold:
  assumes "\<And>x s. advances {} s (f x s)"
  shows "advances {} s (fold f xs s)"
proof (induction xs arbitrary: s)
  case Nil
  show ?case by simp
next
  case (Cons x xs)
  from advances_trans [OF assms Cons.IH] show ?case by simp
qed

lemma advances_sendCommand: "advances {} s (snd (sendCommand buffer event s))"
proof -
  let ?cmd = "length (cells s)"
  let ?s1 = "snd (new_cell NoAwaiter s)"
  let ?s2 = "snd (connect_exec (SendCommand ?cmd buffer event) ?s1)"
  have 1: "advances {?cmd} s ?s1" by (rule advances_new_cell)
  from advances_trans [OF 1 advances_connect_exec] have 2: "advances {?cmd} s ?s2" .
  have "?cmd < length (cells ?s2)" by (simp add: connect_exec_cell)
  from advances_set_timer [OF 2 _ this] have 3: "advances {} s (set_timer ?cmd ?s2)" by simp
  have eq: "snd (sendCommand buffer event s) =
              after_connect (fst (connect_exec (SendCommand ?cmd buffer event) ?s1))
                (set_timer ?cmd ?s2)"
    by (simp add: sendCommand_def split_beta Let_def)
  show ?thesis
    unfolding eq by (rule advances_trans [OF 3 advances_after_connect])
qed

lemma advances_emit: "advances {} s (emit event v s)"
  using advances_fold [of "\<lambda>l. settle (snd l) (Fulfilled v)", OF advances_settle]
  unfolding emit_def
  using advances_updates_left(8) by blast

lemma advances_log [simp]: "advances N s (log ls s') = advances N s s'"
  by (simp add: log_def)

lemma advances_log_left [simp]: "advances N (log ls s) s' = advances N s s'"
  by (simp add: log_def)

lemma advances_dataHandler: "advances {} s (dataHandler data s)"
proof -
  have "advances {} s (emit event v (log ls (log ls' s)))" for event v ls ls'
    using advances_emit [of "log ls (log ls' s)" event v] by simp
  then show ?thesis
    by (simp add: dataHandler_def Let_def split_beta split: option.splits)
qed

lemma advances_funpow:
  assumes "\<And>s. advances {} s (f s)"
  shows "advances {} s ((f ^^ n) s)"
proof (induction n)
  case 0
  show ?case by simp
next
  case (Suc n)
  from advances_trans [OF Suc assms] show ?case by simp
qed

lemma advances_step:
  assumes "\<And>d. e \<noteq> Elapse d"
  shows "advances {} s (step e s)"
proof (cases e)
  case (AdapterConnect err)
  let ?s1 = "s\<lparr>pstate := (if err = None then Connected else PError),
               isConnected := (if err = None then True else isConnected s),
               connect_once := []\<rparr>"
  have "advances {} ?s1 (fold resolveCharacteristics (connect_once s) ?s1)"
    by (rule advances_fold) (rule advances_resolveCharacteristics)
  then show ?thesis
    unfolding step_def AdapterConnect event.case Let_def by simp
next
  case (AdapterDisconnect err)
  let ?s1 = "s\<lparr>pstate := Disconnected,
               isConnected := (if err = None then False else isConnected s),
               disconnect_once := []\<rparr>"
  have "advances {} ?s1 (fold (\<lambda>d. settle d (Fulfilled NoValue)) (disconnect_once s) ?s1)"
    by (rule advances_fold) (rule advances_settle)
  then show ?thesis
    unfolding step_def AdapterDisconnect event.case Let_def by simp
next
  case (ServicesDiscovered rc err svc)
  have "advances {} s (settle c p (s\<lparr>pending_discover := x\<rparr>))" for c p x
    using advances_settle [of "s\<lparr>pending_discover := x\<rparr>" c p] by simp
  moreover
  have "advances {} s (settle c p (s\<lparr>pending_discover := x, have_dataCharacteristic := d,
                                     have_commandCharacteristic := c'\<rparr>))" for c p x d c'
    using advances_settle [of "s\<lparr>pending_discover := x, have_dataCharacteristic := d,
                                     have_commandCharacteristic := c'\<rparr>" c p] by simp
  ultimately show ?thesis
    unfolding step_def ServicesDiscovered event.case Let_def
    by (simp split: option.splits service.splits)
next
  case (Subscribed cc err)
  have "advances {} s (settle c p (s\<lparr>pending_subscribe := x\<rparr>))" for c p x
    using advances_settle [of "s\<lparr>pending_subscribe := x\<rparr>" c p] by simp
  then show ?thesis
    unfolding step_def Subscribed event.case Let_def
    by (simp split: option.splits)
next
  case (Written w err)
  have "advances {} s (settle c p (s\<lparr>pending_write := x\<rparr>))" for c p x
    using advances_settle [of "s\<lparr>pending_write := x\<rparr>" c p] by simp
  then show ?thesis
    unfolding step_def Written event.case Let_def
    by (simp split: option.splits)
next
  case (Notify data)
  then show ?thesis
    by (simp add: step_def advances_funpow advances_dataHandler)
next
  case (Elapse d)
  with assms [of d] show ?thesis by simp
qed

lemma advances_later: "advances N s s' \<Longrightarrow> later s s'"
  unfolding advances_def later_def by auto

lemma later_refl [simp]: "later s s"
  by (simp add: later_def)

lemma later_trans:
  assumes a: "later s s'" and b: "later s' s''"
  shows "later s s''"
proof -
  have 2: "length (cells s) \<le> length (cells s')" "length (cells s') \<le> length (cells s'')"
    "clock s \<le> clock s''"
    using a b by (simp_all add: later_def)
  have 3: "cell_state (cells s'' ! c) = cell_state (cells s ! c)"
    if "c < length (cells s)" "cell_state (cells s ! c) \<noteq> Pending" for c
  proof -
    have "cell_state (cells s' ! c) = cell_state (cells s ! c)"
      using a that by (simp add: later_def)
    moreover have "c < length (cells s')" using that 2 by simp
    ultimately show ?thesis using b that by (simp add: later_def)
  qed
  have 4: "t \<in> set (timers s)" if "t \<in> set (timers s'')" "fst t < length (cells s)" for t
  proof -
    have "fst t < length (cells s')" using that 2 by simp
    with b that have "t \<in> set (timers s')" by (simp add: later_def)
    with a that show ?thesis by (simp add: later_def)
  qed
  show ?thesis
    unfolding later_def using 2 3 4 by (intro conjI allI ballI impI) simp_all
qed

lemma advances_not_pending:
  assumes "advances N s s'" "c < length (cells s)" "\<not> is_pending c s"
  shows "\<not> is_pending c s'"
  using assms by (simp add: advances_def is_pending_def)

lemma timed_but_advances:
  assumes t: "timed_but X s" and a: "advances {} s s'"
  shows "timed_but X s'"
proof -
  have 1: "c \<in> X \<or> c \<in> fst ` set (timers s')"
    if c: "c < length (cells s')" "cell_state (cells s' ! c) = Pending" for c
  proof (cases "c < length (cells s)")
    case True
    have "cell_state (cells s ! c) = Pending"
    proof (rule ccontr)
      assume n: "cell_state (cells s ! c) \<noteq> Pending"
      with a True have "cell_state (cells s' ! c) = cell_state (cells s ! c)"
        by (simp add: advances_def)
      with c(2) n show False by simp
    qed
    with t True have "c \<in> X \<or> c \<in> fst ` set (timers s)"
      by (simp add: timed_but_def)
    moreover have "set (timers s) \<subseteq> set (timers s')"
      using a by (simp add: advances_def)
    ultimately show ?thesis by blast
  next
    case False
    with a c show ?thesis by (simp add: advances_def)
  qed
  have 2: "fst x < length (cells s') \<and> clock s' < snd x \<and> snd x \<le> clock s' + timeout_ms"
    if "x \<in> set (timers s')" for x
  proof -
    have cl: "clock s' = clock s" and le: "length (cells s) \<le> length (cells s')"
      using a by (simp_all add: advances_def)
    from a that have "x \<in> set (timers s) \<or>
           (length (cells s) \<le> fst x \<and> fst x < length (cells s') \<and>
            snd x = clock s + timeout_ms)"
      unfolding advances_def by blast
    then show ?thesis
    proof
      assume "x \<in> set (timers s)"
      with t have "fst x < length (cells s) \<and> clock s < snd x \<and> snd x \<le> clock s + timeout_ms"
        by (simp add: timed_but_def)
      then show ?thesis using cl le by simp
    next
      assume "length (cells s) \<le> fst x \<and> fst x < length (cells s') \<and>
              snd x = clock s + timeout_ms"
      then show ?thesis using cl by (simp add: timeout_ms_def)
    qed
  qed
  show ?thesis
    unfolding timed_but_def using 1 2 by (intro conjI allI ballI impI) simp_all
qed

lemma timed_advances: "timed s \<Longrightarrow> advances {} s s' \<Longrightarrow> timed s'"
  unfolding timed_def by (rule timed_but_advances)

lemma timed_but_settled:
  assumes "timed_but X s" "\<forall>c \<in> X. \<not> is_pending c s"
  shows "timed s"
  using assms unfolding timed_def timed_but_def is_pending_def by blast

lemma settle_settled: "\<not> is_pending c s \<Longrightarrow> settle c p s = s"
  by (simp add: settle_def settle_plain_def settle_write_def settle_connect_def
      settle_resolve_def split: awaiter.splits)

lemma put_not_pending:
  "c < length (cells s) \<Longrightarrow> p \<noteq> Pending \<Longrightarrow> \<not> is_pending c (put c p s)"
  by (simp add: is_pending_def put_state)

lemma settle_settles:
  assumes "p \<noteq> Pending"
  shows "\<not> is_pending c (settle c p s)"
proof (cases "is_pending c s")
  case False
  then show ?thesis by (simp add: settle_settled)
next
  case True
  then have lt: "c < length (cells s)" by (simp add: is_pending_def)
  have np: "\<not> is_pending c (put c p s)"
    using lt assms by (rule put_not_pending)
  have lt': "c < length (cells (put c p s))" using lt by simp
  show ?thesis
  proof (cases "cell_awaiter (cells s ! c)")
    case NoAwaiter
    then show ?thesis using True lt np by (simp add: settle_def settle_plain_def)
  next
    case (SendCommand cmd buffer event)
    then have "settle c p s = after_connect c (put c p s)"
      using True lt by (simp add: settle_def settle_connect_def)
    then show ?thesis
      using advances_not_pending [OF advances_after_connect lt' np] by simp
  next
    case (CommandWrite cmd)
    then have "settle c p s = after_write c (put c p s)"
      using True lt by (simp add: settle_def settle_write_def)
    then show ?thesis
      using advances_not_pending [OF advances_after_write lt' np] by simp
  next
    case (ConnectHandler cc)
    then have "settle c p s = after_resolve c (put c p s)"
      using True lt by (simp add: settle_def settle_resolve_def)
    then show ?thesis
      using advances_not_pending [OF advances_after_resolve lt' np] by simp
  qed
qed

lemma fold_settle_settles:
  assumes "p \<noteq> Pending"
  shows "t \<in> set ts \<Longrightarrow> fst t < length (cells s) \<Longrightarrow>
         \<not> is_pending (fst t) (fold (\<lambda>t. settle (fst t) p) ts s)"
proof (induction ts arbitrary: s)
  case Nil
  then show ?case by simp
next
  case (Cons x xs)
  let ?s' = "settle (fst x) p s"
  have a: "advances {} s ?s'" by (rule advances_settle)
  then have lt: "fst t < length (cells ?s')"
    using Cons.prems(2) advances_length [OF a] by simp
  show ?case
  proof (cases "t = x")
    case True
    then have "\<not> is_pending (fst t) ?s'" using settle_settles [OF assms] by simp
    from advances_not_pending [OF advances_fold lt this, of "\<lambda>t. settle (fst t) p" xs]
    show ?thesis by (simp add: advances_settle)
  next
    case False
    with Cons.prems(1) have "t \<in> set xs" by simp
    from Cons.IH [OF this lt] show ?thesis by simp
  qed
qed

lemma fold_settle_settled:
  "\<forall>c \<in> set cs. \<not> is_pending c s \<Longrightarrow> fold (\<lambda>c. settle c p) cs s = s"
  by (induction cs) (simp_all add: settle_settled)

subsection \<open>A rejection settles nothing but promises\<close>

lemma only_rejects_refl [simp]: "only_rejects r s s"
  by (simp add: only_rejects_def)

lemma only_rejects_trans:
  assumes a: "only_rejects r s s'" and b: "only_rejects r s' s''"
  shows "only_rejects r s s''"
proof -
  have e: "s' = s\<lparr>cells := cells s'\<rparr>" "s'' = s'\<lparr>cells := cells s''\<rparr>"
    using a b by (simp_all add: only_rejects_def)
  have 1: "s'' = s\<lparr>cells := cells s''\<rparr>"
    by (subst e(2), subst e(1)) simp
  have 2: "length (cells s') = length (cells s)" "length (cells s'') = length (cells s')"
    using a b by (simp_all add: only_rejects_def)
  have 3: "cell_awaiter (cells s'' ! c) = cell_awaiter (cells s ! c) \<and>
           (cell_state (cells s'' ! c) = cell_state (cells s ! c) \<or>
            cell_state (cells s ! c) = Pending \<and> cell_state (cells s'' ! c) = Rejected r)"
    if "c < length (cells s)" for c
  proof -
    have x: "cell_awaiter (cells s' ! c) = cell_awaiter (cells s ! c) \<and>
           (cell_state (cells s' ! c) = cell_state (cells s ! c) \<or>
            cell_state (cells s ! c) = Pending \<and> cell_state (cells s' ! c) = Rejected r)"
      using a that by (simp add: only_rejects_def)
    have "c < length (cells s')" using that 2 by simp
    then have y: "cell_awaiter (cells s'' ! c) = cell_awaiter (cells s' ! c) \<and>
           (cell_state (cells s'' ! c) = cell_state (cells s' ! c) \<or>
            cell_state (cells s' ! c) = Pending \<and> cell_state (cells s'' ! c) = Rejected r)"
      using b by (simp add: only_rejects_def)
    from x y show ?thesis by auto
  qed
  show ?thesis
    unfolding only_rejects_def using 1 2 3 by (intro conjI allI impI) simp_all
qed

lemma only_rejects_state:
  assumes "only_rejects r s s'" "c < length (cells s)"
  shows "cell_state (cells s' ! c) = cell_state (cells s ! c) \<or>
         cell_state (cells s' ! c) = Rejected r"
  using assms unfolding only_rejects_def by blast

lemma only_rejects_length: "only_rejects r s s' \<Longrightarrow> length (cells s') = length (cells s)"
  unfolding only_rejects_def by blast

lemma only_rejects_put:
  assumes "is_pending c s"
  shows "only_rejects r s (put c (Rejected r) s)"
proof -
  have "put c (Rejected r) s = s\<lparr>cells := cells (put c (Rejected r) s)\<rparr>"
    by (simp add: put_def)
  then show ?thesis
    using assms unfolding only_rejects_def
    by (auto simp: is_pending_def put_state)
qed

lemma only_rejects_settle_plain: "only_rejects r s (settle_plain c (Rejected r) s)"
  by (simp add: settle_plain_def only_rejects_put)

lemma only_rejects_after_write:
  assumes "cell_state (cells s ! w) = Rejected r"
  shows "only_rejects r s (after_write w s)"
  using assms by (simp add: after_write_def only_rejects_settle_plain split: awaiter.splits)

lemma only_rejects_after_connect:
  assumes "cell_state (cells s ! cc) = Rejected r"
  shows "only_rejects r s (after_connect cc s)"
  using assms by (simp add: after_connect_def only_rejects_settle_plain split: awaiter.splits)

lemma only_rejects_settle_write: "only_rejects r s (settle_write w (Rejected r) s)"
proof (cases "is_pending w s")
  case True
  then have "cell_state (cells (put w (Rejected r) s) ! w) = Rejected r"
    by (simp add: is_pending_def put_state)
  from only_rejects_trans [OF only_rejects_put [OF True] only_rejects_after_write [OF this]]
  show ?thesis using True by (simp add: settle_write_def)
qed (simp add: settle_write_def)

lemma only_rejects_settle_connect: "only_rejects r s (settle_connect cc (Rejected r) s)"
proof (cases "is_pending cc s")
  case True
  then have "cell_state (cells (put cc (Rejected r) s) ! cc) = Rejected r"
    by (simp add: is_pending_def put_state)
  from only_rejects_trans [OF only_rejects_put [OF True] only_rejects_after_connect [OF this]]
  show ?thesis using True by (simp add: settle_connect_def)
qed (simp add: settle_connect_def)

lemma only_rejects_after_resolve:
  assumes "cell_state (cells s ! rc) = Rejected r"
  shows "only_rejects r s (after_resolve rc s)"
  using assms by (simp add: after_resolve_def only_rejects_settle_connect split: awaiter.splits)

lemma only_rejects_settle_resolve: "only_rejects r s (settle_resolve rc (Rejected r) s)"
proof (cases "is_pending rc s")
  case True
  then have "cell_state (cells (put rc (Rejected r) s) ! rc) = Rejected r"
    by (simp add: is_pending_def put_state)
  from only_rejects_trans [OF only_rejects_put [OF True] only_rejects_after_resolve [OF this]]
  show ?thesis using True by (simp add: settle_resolve_def)
qed (simp add: settle_resolve_def)

lemma only_rejects_settle: "only_rejects r s (settle c (Rejected r) s)"
  by (simp add: settle_def only_rejects_settle_plain only_rejects_settle_write
      only_rejects_settle_connect only_rejects_settle_resolve split: awaiter.splits)

lemma only_rejects_fold:
  "only_rejects r s (fold (\<lambda>t. settle (fst t) (Rejected r)) ts s)"
proof (induction ts arbitrary: s)
  case Nil
  show ?case by simp
next
  case (Cons x xs)
  from only_rejects_trans [OF only_rejects_settle Cons.IH] show ?case by simp
qed

subsection \<open>Time passing\<close>

lemma step_Elapse:
  "step (Elapse d) s =
     fold (\<lambda>t. settle (fst t) (Rejected (Timeout timeout_ms)))
       (filter (\<lambda>t. snd t \<le> clock s + max 0 d) (timers s))
       (s\<lparr>clock := clock s + max 0 d,
          timers := filter (\<lambda>t. clock s + max 0 d < snd t) (timers s)\<rparr>)"
  by (simp add: step_def Let_def)

lemma elapse_only_rejects:
  "only_rejects (Timeout timeout_ms)
     (s\<lparr>clock := clock s + max 0 d,
        timers := filter (\<lambda>t. clock s + max 0 d < snd t) (timers s)\<rparr>)
     (step (Elapse d) s)"
  unfolding step_Elapse by (rule only_rejects_fold)

lemma later_elapse: "later s (step (Elapse d) s)"
proof -
  let ?s1 = "s\<lparr>clock := clock s + max 0 d,
               timers := filter (\<lambda>t. clock s + max 0 d < snd t) (timers s)\<rparr>"
  have 1: "later s ?s1" by (simp add: later_def)
  have "advances {} ?s1 (step (Elapse d) s)"
    unfolding step_Elapse by (rule advances_fold) (rule advances_settle)
  from later_trans [OF 1 advances_later [OF this]] show ?thesis .
qed

lemma timed_elapse:
  assumes "timed s"
  shows "timed (step (Elapse d) s)"
proof -
  let ?now = "clock s + max 0 d"
  let ?due = "filter (\<lambda>t. snd t \<le> ?now) (timers s)"
  let ?s1 = "s\<lparr>clock := ?now, timers := filter (\<lambda>t. ?now < snd t) (timers s)\<rparr>"
  let ?R = "Rejected (Timeout timeout_ms)"
  have t: "\<forall>c < length (cells s). cell_state (cells s ! c) = Pending \<longrightarrow>
              c \<in> fst ` set (timers s)"
    "\<forall>t \<in> set (timers s). fst t < length (cells s) \<and> clock s < snd t \<and>
              snd t \<le> clock s + timeout_ms"
    using assms by (simp_all add: timed_def timed_but_def)
  have a: "c \<in> fst ` set ?due \<or> c \<in> fst ` set (timers ?s1)"
    if "c < length (cells s)" "cell_state (cells s ! c) = Pending" for c
  proof -
    from t(1) that obtain x where x: "x \<in> set (timers s)" "fst x = c" by auto
    show ?thesis
    proof (cases "snd x \<le> ?now")
      case True
      with x have "x \<in> set ?due" by simp
      with x(2) show ?thesis by blast
    next
      case False
      with x have "x \<in> set (timers ?s1)" by simp
      with x(2) show ?thesis by blast
    qed
  qed
  have b: "fst x < length (cells ?s1) \<and> clock ?s1 < snd x \<and> snd x \<le> clock ?s1 + timeout_ms"
    if "x \<in> set (timers ?s1)" for x
  proof -
    from that have x: "x \<in> set (timers s)" "?now < snd x" by simp_all
    with t(2) have "fst x < length (cells s) \<and> snd x \<le> clock s + timeout_ms" by simp
    then show ?thesis using x(2) by (simp add: max_def)
  qed
  have 1: "timed_but (fst ` set ?due) ?s1"
    unfolding timed_but_def using a b by (intro conjI allI ballI impI) simp_all
  have adv: "advances {} ?s1 (fold (\<lambda>t. settle (fst t) ?R) ?due ?s1)"
    by (rule advances_fold) (rule advances_settle)
  from timed_but_advances [OF 1 adv]
  have 2: "timed_but (fst ` set ?due) (step (Elapse d) s)" by (simp add: step_Elapse)
  have 3: "\<not> is_pending (fst x) (step (Elapse d) s)" if "x \<in> set ?due" for x
  proof -
    from that t(2) have "fst x < length (cells ?s1)" by simp
    from fold_settle_settles [OF _ that this, of ?R] show ?thesis by (simp add: step_Elapse)
  qed
  show ?thesis
    by (rule timed_but_settled [OF 2]) (use 3 in blast)
qed

lemma elapse_rejects:
  assumes "is_pending c s" "(c, dl) \<in> set (timers s)" "dl \<le> clock s + d"
  shows "cell_state (cells (step (Elapse d) s) ! c) = Rejected (Timeout timeout_ms)"
proof -
  let ?now = "clock s + max 0 d"
  let ?due = "filter (\<lambda>t. snd t \<le> ?now) (timers s)"
  let ?s1 = "s\<lparr>clock := ?now, timers := filter (\<lambda>t. ?now < snd t) (timers s)\<rparr>"
  let ?R = "Rejected (Timeout timeout_ms)"
  have lt: "c < length (cells s)" and pe: "cell_state (cells s ! c) = Pending"
    using assms(1) by (simp_all add: is_pending_def)
  have "(c, dl) \<in> set ?due" using assms(2,3) by simp
  from fold_settle_settles [OF _ this, of ?R ?s1]
  have np: "\<not> is_pending c (step (Elapse d) s)"
    using lt by (simp add: step_Elapse)
  have o: "only_rejects (Timeout timeout_ms) ?s1 (step (Elapse d) s)"
    by (rule elapse_only_rejects)
  have "length (cells (step (Elapse d) s)) = length (cells s)"
    using only_rejects_length [OF o] by simp
  moreover
  have "cell_state (cells (step (Elapse d) s) ! c) = cell_state (cells s ! c) \<or>
     cell_state (cells (step (Elapse d) s) ! c) = Rejected (Timeout timeout_ms)"
    using only_rejects_state [OF o, of c] lt by simp
  ultimately show ?thesis using np pe lt by (auto simp: is_pending_def)
qed

subsection \<open>Every reachable session\<close>

lemma timed_new_session: "timed (new_session st)"
  by (simp add: timed_def timed_but_def new_session_def)

lemma timed_step: "timed s \<Longrightarrow> timed (step e s)"
proof (cases "\<exists>d. e = Elapse d")
  case True
  assume "timed s"
  with True show ?thesis by (auto simp: timed_elapse)
next
  case False
  assume "timed s"
  moreover from False have "advances {} s (step e s)" by (intro advances_step) simp
  ultimately show ?thesis by (rule timed_advances)
qed

lemma reachable_timed: "reachable s \<Longrightarrow> timed s"
proof (induction rule: reachable.induct)
  case (constructed st)
  show ?case by (rule timed_new_session)
next
  case (connected s)
  from timed_advances [OF connected.IH advances_connect] show ?case .
next
  case (disconnected s)
  from timed_advances [OF disconnected.IH advances_disconnect] show ?case .
next
  case (commanded s buffer event)
  from timed_advances [OF commanded.IH advances_sendCommand] show ?case .
next
  case (stepped s e)
  then show ?case by (simp add: timed_step)
qed

lemma later_step: "later s (step e s)"
proof (cases "\<exists>d. e = Elapse d")
  case True
  then show ?thesis by (auto simp: later_elapse)
next
  case False
  then have "advances {} s (step e s)" by (intro advances_step) simp
  then show ?thesis by (rule advances_later)
qed

lemma later_perform: "later s (perform a s)"
  by (cases a)
     (simp_all add: later_step advances_later [OF advances_connect]
        advances_later [OF advances_disconnect] advances_later [OF advances_sendCommand])

lemma later_perform_all: "later s (perform_all acts s)"
  unfolding perform_all_def
proof (induction acts arbitrary: s)
  case Nil
  show ?case by simp
next
  case (Cons a acts)
  from later_trans [OF later_perform Cons.IH] show ?case by simp
qed

lemma reachable_perform: "reachable s \<Longrightarrow> reachable (perform a s)"
  by (cases a) (simp_all add: reachable.intros)

lemma reachable_perform_all: "reachable s \<Longrightarrow> reachable (perform_all acts s)"
  unfolding perform_all_def
  by (induction acts arbitrary: s) (simp_all add: reachable_perform)

lemma pending_has_deadline:
  assumes "reachable s" "is_pending c s"
  shows "\<exists>dl. (c, dl) \<in> set (timers s) \<and> clock s < dl \<and> dl \<le> clock s + timeout_ms"
proof -
  have t: "timed_but {} s" using reachable_timed [OF assms(1)] by (simp add: timed_def)
  from assms(2) have "c < length (cells s)" "cell_state (cells s ! c) = Pending"
    by (simp_all add: is_pending_def)
  with t obtain x where x: "x \<in> set (timers s)" "fst x = c"
    unfolding timed_but_def by auto
  with t have "clock s < snd x \<and> snd x \<le> clock s + timeout_ms"
    by (simp add: timed_but_def)
  moreover have "(c, snd x) \<in> set (timers s)"
    using x by (metis prod.collapse)
  ultimately show ?thesis by blast
qed

lemma settled_by_deadline:
  assumes r: "reachable s" and lt: "c < length (cells s)"
    and cl: "clock s + timeout_ms \<le> clock (perform_all acts s)"
  shows "\<not> is_pending c (perform_all acts s)"
proof
  let ?s' = "perform_all acts s"
  assume p: "is_pending c ?s'"
  have "reachable ?s'" using r by (rule reachable_perform_all)
  from pending_has_deadline [OF this p]
  obtain dl where dl: "(c, dl) \<in> set (timers ?s')" "clock ?s' < dl" by blast
  have "later s ?s'" by (rule later_perform_all)
  with dl(1) lt have "(c, dl) \<in> set (timers s)" by (auto simp: later_def)
  with reachable_timed [OF r] have "dl \<le> clock s + timeout_ms"
    by (auto simp: timed_def timed_but_def)
  with cl dl(2) show False by simp
qed

lemma settled_once:
  assumes "c < length (cells s)" "\<not> is_pending c s"
  shows "cell_state (cells (perform_all acts s) ! c) = cell_state (cells s ! c)"
  using later_perform_all [of s acts] assms by (simp add: later_def is_pending_def)

subsection \<open>Listeners that outlive their operation\<close>

lemma fold_settle_stale:
  "\<forall>x \<in> set xs. \<not> is_pending (g x) s \<Longrightarrow> fold (\<lambda>x. settle (g x) p) xs s = s"
  by (induction xs) (simp_all add: settle_settled)

lemma emit_stale:
  assumes "\<forall>l \<in> set (dataEvents s). fst l = event \<longrightarrow> \<not> is_pending (snd l) s"
  shows "emit event v s = s\<lparr>dataEvents := filter (\<lambda>l. fst l \<noteq> event) (dataEvents s)\<rparr>"
proof -
  let ?s0 = "s\<lparr>dataEvents := filter (\<lambda>l. fst l \<noteq> event) (dataEvents s)\<rparr>"
  have "\<forall>l \<in> set (filter (\<lambda>l. fst l = event) (dataEvents s)). \<not> is_pending (snd l) ?s0"
    using assms by (simp add: is_pending_def)
  from fold_settle_stale [OF this] show ?thesis by (simp add: emit_def)
qed

lemma disconnect_stale:
  assumes "\<forall>d \<in> set (disconnect_once s). \<not> is_pending d s"
  shows "step (AdapterDisconnect err) s =
           s\<lparr>pstate := Disconnected,
             isConnected := (if err = None then False else isConnected s),
             disconnect_once := []\<rparr>"
proof -
  let ?s0 = "s\<lparr>pstate := Disconnected,
               isConnected := (if err = None then False else isConnected s),
               disconnect_once := []\<rparr>"
  have "\<forall>d \<in> set (disconnect_once s). \<not> is_pending d ?s0"
    using assms by (simp add: is_pending_def)
  from fold_settle_stale [OF this, of "Fulfilled NoValue"] show ?thesis
    by (simp add: step_def Let_def)
qed

lemma resolveCharacteristics_value:
  "resolveCharacteristics cc s =
     s\<lparr>cells := cells s @ [\<lparr>cell_state = Pending, cell_awaiter = ConnectHandler cc\<rparr>],
       timers := timers s @ [(length (cells s), clock s + timeout_ms)],
       pending_discover := pending_discover s @ [length (cells s)],
       adapter_calls := adapter_calls s @ [Call_discoverAllServicesAndCharacteristics]\<rparr>"
  by (simp add: resolveCharacteristics_def new_cell_def set_timer_def Let_def)

lemma fold_resolveCharacteristics:
  "fold resolveCharacteristics ccs s =
     s\<lparr>cells := cells s @
          map (\<lambda>cc. \<lparr>cell_state = Pending, cell_awaiter = ConnectHandler cc\<rparr>) ccs,
       timers := timers s @
          map (\<lambda>i. (i, clock s + timeout_ms)) [length (cells s)..<length (cells s) + length ccs],
       pending_discover := pending_discover s @
          [length (cells s)..<length (cells s) + length ccs],
       adapter_calls := adapter_calls s @
          replicate (length ccs) Call_discoverAllServicesAndCharacteristics\<rparr>"
  (is "_ = ?F ccs s")
proof (induction ccs arbitrary: s)
  case Nil
  show ?case by simp
next
  case (Cons cc ccs)
  have u: "[length (cells s)..<Suc (length (cells s) + length ccs)] =
           length (cells s) # [Suc (length (cells s))..<Suc (length (cells s) + length ccs)]"
    by (rule upt_conv_Cons) simp
  have "fold resolveCharacteristics (cc # ccs) s =
          fold resolveCharacteristics ccs (resolveCharacteristics cc s)"
    by simp
  also have "\<dots> = ?F ccs (resolveCharacteristics cc s)"
    by (rule Cons.IH)
  also have "\<dots> = ?F (cc # ccs) s"
    by (simp add: resolveCharacteristics_value u replicate_app_Cons_same del: upt_Suc)
  finally show ?case .
qed

lemma connect_event:
  "adapter_calls (step (AdapterConnect err) s) =
     adapter_calls s @
     replicate (length (connect_once s)) Call_discoverAllServicesAndCharacteristics \<and>
   pending_discover (step (AdapterConnect err) s) =
     pending_discover s @ [length (cells s)..<length (cells s) + length (connect_once s)] \<and>
   connect_once (step (AdapterConnect err) s) = [] \<and>
   (\<forall>i < length (connect_once s).
      cells (step (AdapterConnect err) s) ! (length (cells s) + i) =
        \<lparr>cell_state = Pending, cell_awaiter = ConnectHandler (connect_once s ! i)\<rparr>)"
  by (simp add: step_def Let_def fold_resolveCharacteristics nth_append)

lemma discovered_event:
  assumes "is_pending rc s" "rc \<in> set (pending_discover s)"
    "cell_awaiter (cells s ! rc) = ConnectHandler cc"
  shows "data_handlers (step (ServicesDiscovered rc None (Service True c')) s)
           = data_handlers s + 1 \<and>
         adapter_calls (step (ServicesDiscovered rc None (Service True c')) s)
           = adapter_calls s @ [Call_subscribe] \<and>
         pending_subscribe (step (ServicesDiscovered rc None (Service True c')) s)
           = pending_subscribe s @ [cc]"
proof -
  let ?s1 = "s\<lparr>pending_discover := removeAll rc (pending_discover s),
               have_dataCharacteristic := True, have_commandCharacteristic := c'\<rparr>"
  have lt: "rc < length (cells s)" using assms(1) by (simp add: is_pending_def)
  have p: "is_pending rc ?s1" using assms(1) by (simp add: is_pending_def)
  have e: "step (ServicesDiscovered rc None (Service True c')) s
             = after_resolve rc (put rc (Fulfilled NoValue) ?s1)"
    using assms(2,3) lt p by (simp add: step_def Let_def settle_def settle_resolve_def)
  have "cell_state (cells (put rc (Fulfilled NoValue) ?s1) ! rc) = Fulfilled NoValue"
    using lt by (simp add: put_state)
  moreover have "cell_awaiter (cells (put rc (Fulfilled NoValue) ?s1) ! rc) = ConnectHandler cc"
    using assms(3) by simp
  moreover have "have_dataCharacteristic (put rc (Fulfilled NoValue) ?s1)"
    by (simp add: put_def)
  ultimately show ?thesis
    unfolding e by (simp add: after_resolve_def put_def)
qed

lemma connect_connected:
  assumes "pstate s = Connected"
  shows "cell_state (cells (snd (connect s)) ! fst (connect s)) = Fulfilled NoValue \<and>
         adapter_calls (snd (connect s)) = adapter_calls s \<and>
         connect_once (snd (connect s)) = connect_once s"
  using assms
  by (simp add: connect_def connect_exec_def new_cell_def put_def set_timer_def Let_def)

lemma connect_not_connected:
  assumes "pstate s \<noteq> Connected"
  shows "is_pending (fst (connect s)) (snd (connect s)) \<and>
         connect_once (snd (connect s)) = connect_once s @ [fst (connect s)] \<and>
         adapter_calls (snd (connect s)) = adapter_calls s @ [Call_connect]"
  using assms
  by (simp add: connect_def connect_exec_def new_cell_def put_def set_timer_def Let_def
      is_pending_def)

lemma elapse_keeps:
  "dataEvents (step (Elapse d) s) = dataEvents s \<and>
   connect_once (step (Elapse d) s) = connect_once s \<and>
   disconnect_once (step (Elapse d) s) = disconnect_once s \<and>
   pstate (step (Elapse d) s) = pstate s \<and>
   data_handlers (step (Elapse d) s) = data_handlers s \<and>
   adapter_calls (step (Elapse d) s) = adapter_calls s"
proof -
  let ?s1 = "s\<lparr>clock := clock s + max 0 d,
               timers := filter (\<lambda>t. clock s + max 0 d < snd t) (timers s)\<rparr>"
  have "step (Elapse d) s = ?s1\<lparr>cells := cells (step (Elapse d) s)\<rparr>"
    using elapse_only_rejects [of s d] unfolding only_rejects_def by blast
  then obtain cs where "step (Elapse d) s = ?s1\<lparr>cells := cs\<rparr>" by blast
  then show ?thesis by simp
qed

lemma elapse_rejects_pending:
  assumes "reachable s" "is_pending c s" "timeout_ms \<le> d"
  shows "cell_state (cells (step (Elapse d) s) ! c) = Rejected (Timeout timeout_ms)"
proof -
  from pending_has_deadline [OF assms(1,2)]
  obtain dl where dl: "(c, dl) \<in> set (timers s)" "dl \<le> clock s + timeout_ms" by blast
  from dl(2) assms(3) have "dl \<le> clock s + d" by simp
  from elapse_rejects [OF assms(2) dl(1) this] show ?thesis .
qed


lemma reachable_connected_session: "reachable connected_session"
  unfolding connected_session_def
  by (intro reachable_run reachable.connected reachable.constructed)

lemma reachable_timed_out:
  "reachable timed_out_status" "reachable timed_out_connect" "reachable second_connect"
  "reachable (step (AdapterConnect None) second_connect)" "reachable timed_out_disconnect"
  unfolding timed_out_status_def timed_out_connect_def second_connect_def
    timed_out_disconnect_def
  by (intro reachable.stepped reachable.connected reachable.disconnected
      reachable.constructed reachable_awaiting_status reachable_connected_session)+

lemma awaiting_status_timers:
  "is_pending 0 awaiting_status" "(0, 10000) \<in> set (timers awaiting_status)"
  "clock awaiting_status = 0" "length (cells awaiting_status) = 4"
  "clock (perform_all [Happen (Elapse 10000)] awaiting_status) = 10000"
  "pstate awaiting_status = Connected"
  by code_simp+

lemma timed_out_status_facts:
  "\<not> is_pending 0 timed_out_status" "length (cells timed_out_status) = 4"
  "dataEvents timed_out_status = [(''status'', 0)]"
  "cell_state (cells timed_out_status ! 0) = Rejected (Timeout 10000)"
  by code_simp+

lemma timed_out_disconnect_facts:
  "disconnect_once timed_out_disconnect = [2]" "\<not> is_pending 2 timed_out_disconnect"
  "cell_state (cells timed_out_disconnect ! 2) = Rejected (Timeout 10000)"
  "pstate timed_out_disconnect = Disconnecting"
  by code_simp+

lemma second_connect_facts:
  "connect_once second_connect = [0, 1]" "\<not> is_pending 0 second_connect"
  "length (cells second_connect) = 2"
  "pstate timed_out_connect = Connecting" "fst (connect timed_out_connect) = 1"
  "connect_once timed_out_connect = [0]"
  "is_pending 2 (step (AdapterConnect None) second_connect)"
  "pending_discover (step (AdapterConnect None) second_connect) = [2, 3]"
  "cell_awaiter (cells (step (AdapterConnect None) second_connect) ! 2) = ConnectHandler 0"
  "data_handlers (step (AdapterConnect None) second_connect) = 0"
  by code_simp+



section \<open>Discovery: validation of the configuration\<close>

lemma forEach_normalise_ok:
  "list_all is_string xs \<Longrightarrow>
   forEach_normalise xs = (None, map (\<lambda>v. JString (normaliseAddress (the_string v))) xs)"
  by (induction xs rule: forEach_normalise.induct) simp_all

lemma forEach_normalise_fails:
  "\<not> list_all is_string xs \<Longrightarrow> fst (forEach_normalise xs) = Some NativeTypeError"
  by (induction xs rule: forEach_normalise.induct) (simp_all add: split_beta)

lemma update_call_fields [simp]:
  "devices (update_call cid f w) = devices w"
  "noble_calls (update_call cid f w) = noble_calls w"
  "discover_listeners (update_call cid f w) = discover_listeners w"
  "arrays (update_call cid f w) = arrays w"
  "next_ref (update_call cid f w) = next_ref w"
  "noble_state (update_call cid f w) = noble_state w"
  "length (calls (update_call cid f w)) = length (calls w)"
  by (simp_all add: update_call_def)

lemma update_call_nth:
  "cid < length (calls w) \<Longrightarrow> calls (update_call cid f w) ! cid = f (calls w ! cid)"
  by (simp add: update_call_def)

lemma scan_resolved_fields [simp]:
  "devices (scan_resolved cid w) = devices w"
  "discover_listeners (scan_resolved cid w) = discover_listeners w"
  "arrays (scan_resolved cid w) = arrays w"
  "next_ref (scan_resolved cid w) = next_ref w"
  "length (calls (scan_resolved cid w)) = length (calls w)"
  by (simp_all add: scan_resolved_def)

lemma startScan_fields [simp]:
  "devices (startScan cid w) = devices w"
  "arrays (startScan cid w) = arrays w"
  "next_ref (startScan cid w) = next_ref w"
  "length (calls (startScan cid w)) = length (calls w)"
  by (simp_all add: startScan_def Let_def)

lemma discover_error_unchanged:
  assumes "fst (discover conv opts w) = Inl e"
  shows "noble_calls (snd (discover conv opts w)) = noble_calls w"
    and "calls (snd (discover conv opts w)) = calls w"
    and "discover_listeners (snd (discover conv opts w)) = discover_listeners w"
    and "devices (snd (discover conv opts w)) = devices w"
    and "noble_state (snd (discover conv opts w)) = noble_state w"
  using assms
  by (auto simp: discover_def Let_def split: if_splits jsvalue.splits prod.splits option.splits)

lemma discover_valid:
  assumes "valid_config conv opts w"
  shows "fst (discover conv opts w) = Inr (length (calls w))"
proof -
  from assms obtain r b where
    d: "\<not> isNaN conv (getOpt opts duration (JNumber (Num 10000)))"
    and a: "getOpt opts addresses (JArray (next_ref w)) = JArray r"
    and s: "list_all is_string (((arrays w)(next_ref w := [])) r)"
    and i: "getOpt opts ignoreUnknown (JBoolean False) = JBoolean b"
    by (auto simp: valid_config_def split: jsvalue.splits)
  show ?thesis
    using d a i forEach_normalise_ok [OF s]
    by (simp add: discover_def Let_def)
qed

lemma discover_invalid:
  assumes "\<not> valid_config conv opts w"
  shows "\<exists>e. fst (discover conv opts w) = Inl e"
proof (cases "isNaN conv (getOpt opts duration (JNumber (Num 10000)))")
  case True
  then show ?thesis by (simp add: discover_def Let_def)
next
  case d: False
  show ?thesis
  proof (cases "getOpt opts addresses (JArray (next_ref w))")
    case (JArray r)
    show ?thesis
    proof (cases "getOpt opts ignoreUnknown (JBoolean False)")
      case (JBoolean b)
      have "\<not> list_all is_string (((arrays w)(next_ref w := [])) r)"
        using assms d JArray JBoolean by (simp add: valid_config_def)
      from forEach_normalise_fails [OF this] show ?thesis
        using d JArray JBoolean
        by (auto simp: discover_def Let_def split: prod.splits option.splits if_splits)
    qed (use d JArray in \<open>simp_all add: discover_def Let_def\<close>)
  qed (use d in \<open>simp_all add: discover_def Let_def\<close>)
qed


text \<open>
  C6, as the code has it: \<open>discover(config)\<close> returns the number of a new call exactly
  when the duration does not convert to NaN (\<open>isNaN\<close>), addresses is an array of
  strings and ignoreUnknown is a boolean; otherwise it throws, and then nothing was asked
  of the adapter, no listener was registered, and neither the calls nor the devices
  changed. The three checks throw their TypeError in the order duration, addresses,
  ignoreUnknown.
\<close>

theorem discover_validation:
  "(valid_config conv opts w \<longrightarrow> fst (discover conv opts w) = Inr (length (calls w))) \<and>
   (\<not> valid_config conv opts w \<longrightarrow>
      (\<exists>e. fst (discover conv opts w) = Inl e) \<and>
      noble_calls (snd (discover conv opts w)) = noble_calls w \<and>
      discover_listeners (snd (discover conv opts w)) = discover_listeners w \<and>
      calls (snd (discover conv opts w)) = calls w \<and>
      devices (snd (discover conv opts w)) = devices w) \<and>
   (isNaN conv (getOpt opts duration (JNumber (Num 10000))) \<longrightarrow>
      fst (discover conv opts w) = Inl (TypeError ''argument [duration] must be a number'')) \<and>
   (\<not> isNaN conv (getOpt opts duration (JNumber (Num 10000))) \<and>
    (\<forall>r. getOpt opts addresses (JArray (next_ref w)) \<noteq> JArray r) \<longrightarrow>
      fst (discover conv opts w) = Inl (TypeError ''argument [addresses] must be an array'')) \<and>
   (\<not> isNaN conv (getOpt opts duration (JNumber (Num 10000))) \<and>
    (\<exists>r. getOpt opts addresses (JArray (next_ref w)) = JArray r) \<and>
    (\<forall>b. getOpt opts ignoreUnknown (JBoolean False) \<noteq> JBoolean b) \<longrightarrow>
      fst (discover conv opts w)
        = Inl (TypeError ''argument [skipUnknown] must be of type boolean''))"
proof (intro conjI)
  show "valid_config conv opts w \<longrightarrow> fst (discover conv opts w) = Inr (length (calls w))"
    using discover_valid by blast
  show "\<not> valid_config conv opts w \<longrightarrow>
      (\<exists>e. fst (discover conv opts w) = Inl e) \<and>
      noble_calls (snd (discover conv opts w)) = noble_calls w \<and>
      discover_listeners (snd (discover conv opts w)) = discover_listeners w \<and>
      calls (snd (discover conv opts w)) = calls w \<and>
      devices (snd (discover conv opts w)) = devices w"
    using discover_invalid discover_error_unchanged by blast
  show "isNaN conv (getOpt opts duration (JNumber (Num 10000))) \<longrightarrow>
      fst (discover conv opts w) = Inl (TypeError ''argument [duration] must be a number'')"
    by (simp add: discover_def Let_def)
  show "\<not> isNaN conv (getOpt opts duration (JNumber (Num 10000))) \<and>
    (\<forall>r. getOpt opts addresses (JArray (next_ref w)) \<noteq> JArray r) \<longrightarrow>
      fst (discover conv opts w) = Inl (TypeError ''argument [addresses] must be an array'')"
    by (cases "getOpt opts addresses (JArray (next_ref w))") (simp_all add: discover_def Let_def)
  show "\<not> isNaN conv (getOpt opts duration (JNumber (Num 10000))) \<and>
    (\<exists>r. getOpt opts addresses (JArray (next_ref w)) = JArray r) \<and>
    (\<forall>b. getOpt opts ignoreUnknown (JBoolean False) \<noteq> JBoolean b) \<longrightarrow>
      fst (discover conv opts w)
        = Inl (TypeError ''argument [skipUnknown] must be of type boolean'')"
    by (cases "getOpt opts ignoreUnknown (JBoolean False)")
       (auto simp: discover_def Let_def)
qed


lemma valid_AB: "valid_config conv_NaN (Some options_AB) world_AB"
  by (simp add: valid_config_def options_AB_def world_AB_def getOpt_def isNaN_def ToNumber_def
      new_world_def)

lemma invalid_examples:
  "isNaN conv_NaN (getOpt (Some (options_duration (JString ''soon''))) duration (JNumber (Num 10000)))"
  "\<not> valid_config conv_NaN (Some (options_duration (JString ''soon''))) world_AB"
  by (simp_all add: valid_config_def options_duration_def getOpt_def isNaN_def ToNumber_def
      conv_NaN_def)

text \<open>
  The theorem of C6 at a configuration that passes and at one whose duration is a string
  that is not a number.
\<close>

theorem discover_validation_witness:
  "valid_config conv_NaN (Some options_AB) world_AB \<and>
   fst (discover conv_NaN (Some options_AB) world_AB) = Inr 0 \<and>
   \<not> valid_config conv_NaN (Some (options_duration (JString ''soon''))) world_AB \<and>
   fst (discover conv_NaN (Some (options_duration (JString ''soon''))) world_AB)
     = Inl (TypeError ''argument [duration] must be a number'') \<and>
   noble_calls (snd (discover conv_NaN (Some (options_duration (JString ''soon''))) world_AB)) = []"
proof -
  have c: "calls world_AB = []" "noble_calls world_AB = []"
    by (simp_all add: world_AB_def new_world_def)
  from discover_validation [of conv_NaN "Some options_AB" world_AB] valid_AB c
  have 1: "fst (discover conv_NaN (Some options_AB) world_AB) = Inr 0" by simp
  from discover_validation [of conv_NaN "Some (options_duration (JString ''soon''))" world_AB]
    invalid_examples c
  have 2: "fst (discover conv_NaN (Some (options_duration (JString ''soon''))) world_AB)
     = Inl (TypeError ''argument [duration] must be a number'')"
   "noble_calls (snd (discover conv_NaN (Some (options_duration (JString ''soon''))) world_AB)) = []"
    by simp_all
  from 1 2 valid_AB invalid_examples(2) show ?thesis by simp
qed

text \<open>
  C6 as stated fails: the durations \<open>true\<close> and \<open>null\<close> are not numbers, yet
  \<open>discover\<close> throws nothing and scanning starts; and a configuration with a number,
  an array and a boolean throws when the array holds an entry that is not a string.
\<close>

theorem discover_validation_counterexample:
  "fst (discover conv_NaN (Some (options_duration (JBoolean True))) (new_world ''poweredOn''))
     = Inr 0 \<and>
   noble_calls (snd (discover conv_NaN (Some (options_duration (JBoolean True)))
       (new_world ''poweredOn''))) = [On_discover, StartScanning] \<and>
   fst (discover conv_NaN (Some (options_duration JNull)) (new_world ''poweredOn'')) = Inr 0 \<and>
   fst (discover conv_NaN
       (Some \<lparr> duration = JNumber (Num 30000), addresses = JArray 1,
               ignoreUnknown = JBoolean True \<rparr>) world_AB) = Inl NativeTypeError"
  by (simp add: discover_def options_duration_def getOpt_def isNaN_def ToNumber_def
      new_world_def startScan_def update_call_def checkDiscovered_def scan_resolved_def
      world_AB_def Let_def)

section \<open>Discovery: the caller's array of addresses\<close>

lemma discover_arrays:
  assumes "valid_config conv opts w"
    and "getOpt opts addresses (JArray (next_ref w)) = JArray r"
  shows "arrays (snd (discover conv opts w)) =
           ((arrays w)(next_ref w := []))
             (r := map (\<lambda>v. JString (normaliseAddress (the_string v)))
                     (((arrays w)(next_ref w := [])) r))"
proof -
  from assms obtain b where
    d: "\<not> isNaN conv (getOpt opts duration (JNumber (Num 10000)))"
    and s: "list_all is_string (((arrays w)(next_ref w := [])) r)"
    and i: "getOpt opts ignoreUnknown (JBoolean False) = JBoolean b"
    by (auto simp: valid_config_def split: jsvalue.splits)
  show ?thesis
    using d assms(2) i forEach_normalise_ok [OF s]
    by (simp add: discover_def Let_def)
qed

lemma toLowerCase_char_not_upper: "\<not> upper_code (of_char (toLowerCase_char c))"
proof (cases "upper_code (of_char c)")
  case True
  then show ?thesis
    using of_char_lower_upper [OF True] upper_code_plus by (simp add: toLowerCase_char_def)
next
  case False
  then show ?thesis by (simp add: toLowerCase_char_def)
qed

lemma normaliseAddress_form:
  assumes "ch \<in> set (normaliseAddress a)"
  shows "ch \<noteq> CHR ''-'' \<and> \<not> upper_code (of_char ch)"
proof -
  from assms obtain c where
    c: "ch = toLowerCase_char (if c = CHR ''-'' then CHR '':'' else c)"
    by (auto simp: normaliseAddress_def toLowerCase_def replace_hyphens_def)
  have "ch \<noteq> CHR ''-''"
    using toLowerCase_char_not_hyphen [of "if c = CHR ''-'' then CHR '':'' else c"] c
    by (auto split: if_splits)
  then show ?thesis using c toLowerCase_char_not_upper by simp
qed



section \<open>Discovery: the shared map of devices\<close>

lemma fold_conj: "fold (\<lambda>a result. result \<and> P a) xs b = (b \<and> list_all P xs)"
  by (induction xs arbitrary: b) auto

lemma checkDiscovered_all: "checkDiscovered addrs devs = list_all (has_property devs) addrs"
  by (simp add: checkDiscovered_def fold_conj)

lemma on_discover_devices: "\<exists>ys. devices (on_discover p cid w) = devices w @ ys"
  by (simp add: on_discover_def Let_def)

lemma fold_devices:
  assumes "\<And>x w. \<exists>ys. devices (f x w) = devices w @ ys"
  shows "\<exists>ys. devices (fold f xs w) = devices w @ ys"
proof (induction xs arbitrary: w)
  case Nil
  then show ?case by simp
next
  case (Cons x xs)
  from assms obtain ys where 1: "devices (f x w) = devices w @ ys" by blast
  from Cons.IH obtain zs where "devices (fold f xs (f x w)) = devices (f x w) @ zs" by blast
  with 1 show ?case by simp
qed

lemma fold_startScan_devices: "devices (fold startScan xs v) = devices v"
  by (induction xs arbitrary: v) simp_all

lemma noble_step_devices: "\<exists>ys. devices (noble_step e w) = devices w @ ys"
proof (cases e)
  case (StateChange st)
  show ?thesis using StateChange by (simp add: noble_step_def Let_def fold_startScan_devices)
next
  case (Discover p)
  have "\<exists>ys. devices (fold (on_discover p) xs v) = devices v @ ys" for xs v
    by (rule fold_devices) (rule on_discover_devices)
  then show ?thesis using Discover by (simp add: noble_step_def)
qed (simp_all add: noble_step_def)

lemma discover_devices: "devices (snd (discover conv opts w)) = devices w"
  by (cases "valid_config conv opts w")
     (auto simp: discover_def Let_def split: jsvalue.splits prod.splits option.splits)

lemma exec_devices: "\<exists>ys. devices (exec conv i w) = devices w @ ys"
  by (cases i) (simp_all add: exec_def discover_devices noble_step_devices)

lemma exec_all_devices: "\<exists>ys. devices (exec_all conv ins w) = devices w @ ys"
  unfolding exec_all_def by (rule fold_devices) (rule exec_devices)

lemma Object_values_set: "set (Object_values entries) = snd ` set entries"
proof -
  have "set (Object_values entries) =
          snd ` ({e \<in> set entries. array_index (fst e) \<noteq> None} \<union>
                 {e \<in> set entries. array_index (fst e) = None})"
    by (simp add: Object_values_def image_Un)
  also have "{e \<in> set entries. array_index (fst e) \<noteq> None} \<union>
             {e \<in> set entries. array_index (fst e) = None} = set entries"
    by auto
  finally show ?thesis .
qed

lemma Object_values_length: "length (Object_values entries) = length entries"
proof -
  have "length (filter (\<lambda>e. array_index (fst e) \<noteq> None) entries) +
        length (filter (\<lambda>e. \<not> array_index (fst e) \<noteq> None) entries) = length entries"
    by (rule sum_length_filter_compl)
  then show ?thesis by (simp add: Object_values_def)
qed

text \<open>The keys that are array indices come first, in ascending order.\<close>

lemma Object_values_order:
  "Object_values [(''b'', 1::int), (''2'', 2), (''1'', 3), (''a'', 4), (''01'', 5), (''10'', 6)]
     = [3, 2, 6, 1, 4, 5]"
  by code_simp

lemma scan_stop_resolves:
  assumes "cid < length (calls w)" "c_phase (calls w ! cid) = Stopping"
  shows "c_phase (calls (noble_step ScanStop w) ! cid) = Resolved (Object_values (devices w))"
  using assms by (simp add: noble_step_def stop_scan_done_def)

lemma startScan_all_known:
  assumes "cid < length (calls w)" "c_addresses (calls w ! cid) \<noteq> []"
    and "\<forall>a \<in> set (c_addresses (calls w ! cid)). a \<in> fst ` set (devices w)"
  shows "c_phase (calls (startScan cid w) ! cid) = Stopping"
    and "noble_calls (startScan cid w) = noble_calls w @ [StopScanning]"
    and "discover_listeners (startScan cid w) = discover_listeners w"
    and "c_timer (calls (startScan cid w) ! cid) = c_timer (calls w ! cid)"
proof -
  let ?w1 = "update_call cid (\<lambda>c. c\<lparr>c_phase := Scanning\<rparr>) w"
  have a: "c_addresses (calls ?w1 ! cid) = c_addresses (calls w ! cid)"
    and t: "c_timer (calls ?w1 ! cid) = c_timer (calls w ! cid)"
    and p: "c_phase (calls ?w1 ! cid) = Scanning"
    using assms(1) by (simp_all add: update_call_nth)
  have "checkDiscovered (c_addresses (calls w ! cid)) (devices ?w1)"
    using assms(3) by (auto simp: checkDiscovered_all list_all_iff has_property_def)
  then have s: "startScan cid w = scan_resolved cid ?w1"
    using assms(2) a by (simp add: startScan_def Let_def)
  show "c_phase (calls (startScan cid w) ! cid) = Stopping"
    using assms(1) p by (simp add: s scan_resolved_def update_call_nth)
  show "noble_calls (startScan cid w) = noble_calls w @ [StopScanning]"
    using p by (simp add: s scan_resolved_def)
  show "discover_listeners (startScan cid w) = discover_listeners w"
    by (simp add: s)
  show "c_timer (calls (startScan cid w) ! cid) = c_timer (calls w ! cid)"
    using assms(1) p t by (simp add: s scan_resolved_def update_call_nth)
qed

text \<open>
  A later call, made while the adapter is powered on, whose addresses all have a recorded
  device already.
\<close>

lemma discover_all_known:
  assumes v: "valid_config conv opts w" and on: "noble_state w = ''poweredOn''"
    and a: "getOpt opts addresses (JArray (next_ref w)) = JArray r"
    and ne: "((arrays w)(next_ref w := [])) r \<noteq> []"
    and k: "\<forall>v \<in> set (((arrays w)(next_ref w := [])) r).
              normaliseAddress (the_string v) \<in> fst ` set (devices w)"
  shows "fst (discover conv opts w) = Inr (length (calls w))"
    and "c_phase (calls (snd (discover conv opts w)) ! length (calls w)) = Stopping"
    and "noble_calls (snd (discover conv opts w)) = noble_calls w @ [StopScanning]"
    and "discover_listeners (snd (discover conv opts w)) = discover_listeners w"
    and "\<not> c_timer (calls (snd (discover conv opts w)) ! length (calls w))"
proof -
  let ?xs = "((arrays w)(next_ref w := [])) r"
  let ?ys = "map (\<lambda>v. JString (normaliseAddress (the_string v))) ?xs"
  from v a obtain b where
    d: "\<not> isNaN conv (getOpt opts duration (JNumber (Num 10000)))"
    and s: "list_all is_string ?xs"
    and i: "getOpt opts ignoreUnknown (JBoolean False) = JBoolean b"
    by (auto simp: valid_config_def split: jsvalue.splits)
  let ?w1 = "w\<lparr>arrays := (arrays w)(next_ref w := []), next_ref := next_ref w + 1\<rparr>"
  let ?w2 = "?w1\<lparr>arrays := (arrays ?w1)(r := ?ys),
                 calls := calls ?w1 @
                   [\<lparr> c_addresses = map the_string ?ys,
                      c_duration = getOpt opts duration (JNumber (Num 10000)),
                      c_ignoreUnknown = b, c_timer = False, c_phase = AwaitPower \<rparr>]\<rparr>"
  let ?cid = "length (calls w)"
  have e: "discover conv opts w = (Inr ?cid, startScan ?cid ?w2)"
    using d a i on forEach_normalise_ok [OF s] by (simp add: discover_def Let_def)
  have l: "?cid < length (calls ?w2)" by simp
  have c: "calls ?w2 ! ?cid =
             \<lparr> c_addresses = map the_string ?ys,
               c_duration = getOpt opts duration (JNumber (Num 10000)),
               c_ignoreUnknown = b, c_timer = False, c_phase = AwaitPower \<rparr>"
    by simp
  have n: "c_addresses (calls ?w2 ! ?cid) \<noteq> []"
    using ne by (simp add: c)
  have kk: "\<forall>x \<in> set (c_addresses (calls ?w2 ! ?cid)). x \<in> fst ` set (devices ?w2)"
    using k by (simp add: c comp_def)
  note ss = startScan_all_known [OF l n kk]
  show "fst (discover conv opts w) = Inr (length (calls w))" by (simp add: e)
  show "c_phase (calls (snd (discover conv opts w)) ! length (calls w)) = Stopping"
    using ss(1) by (simp add: e)
  show "noble_calls (snd (discover conv opts w)) = noble_calls w @ [StopScanning]"
    using ss(2) by (simp add: e)
  show "discover_listeners (snd (discover conv opts w)) = discover_listeners w"
    using ss(3) by (simp add: e)
  show "\<not> c_timer (calls (snd (discover conv opts w)) ! length (calls w))"
    using ss(4) c by (simp add: e)
qed

lemma resolved_with_earlier:
  assumes "cid < length (calls (exec_all conv ins w))"
    and "c_phase (calls (exec_all conv ins w) ! cid) = Stopping"
  shows "\<exists>ds. c_phase (calls (noble_step ScanStop (exec_all conv ins w)) ! cid) = Resolved ds \<and>
              snd ` set (devices w) \<subseteq> set ds"
proof -
  from exec_all_devices [of conv ins w]
  obtain ys where "devices (exec_all conv ins w) = devices w @ ys" by blast
  then have "snd ` set (devices w) \<subseteq> set (Object_values (devices (exec_all conv ins w)))"
    by (simp add: Object_values_set image_Un)
  with scan_stop_resolves [OF assms] show ?thesis by blast
qed

text \<open>
  C9: the one engine's map of devices is never cleared. Whatever calls of \<open>discover\<close>
  and events follow, the devices recorded before are still there; a call whose scan has
  stopped is resolved with \<open>Object.values\<close> of the map at that moment, which lists
  every recorded device once, those of earlier calls included; when every address of a
  non-empty allow-list already has a recorded device, \<open>_startScan\<close> resolves at once:
  scanning is not started, no listener is registered and no timer is set, the next thing
  asked of the adapter is to stop scanning; and so a later \<open>discover\<close>, made while the
  adapter is powered on, for addresses that all have a recorded device goes straight to
  stopping the scan.
\<close>

theorem devices_never_cleared:
  "(\<exists>ys. devices (exec_all conv ins w) = devices w @ ys) \<and>
   (cid < length (calls w) \<and> c_phase (calls w ! cid) = Stopping \<longrightarrow>
      c_phase (calls (noble_step ScanStop w) ! cid) = Resolved (Object_values (devices w))) \<and>
   set (Object_values (devices w)) = snd ` set (devices w) \<and>
   length (Object_values (devices w)) = length (devices w) \<and>
   (cid < length (calls (exec_all conv ins w)) \<and>
    c_phase (calls (exec_all conv ins w) ! cid) = Stopping \<longrightarrow>
      (\<exists>ds. c_phase (calls (noble_step ScanStop (exec_all conv ins w)) ! cid) = Resolved ds \<and>
            snd ` set (devices w) \<subseteq> set ds)) \<and>
   (cid < length (calls w) \<and> c_addresses (calls w ! cid) \<noteq> [] \<and>
    (\<forall>a \<in> set (c_addresses (calls w ! cid)). a \<in> fst ` set (devices w)) \<longrightarrow>
      c_phase (calls (startScan cid w) ! cid) = Stopping \<and>
      noble_calls (startScan cid w) = noble_calls w @ [StopScanning] \<and>
      discover_listeners (startScan cid w) = discover_listeners w \<and>
      c_timer (calls (startScan cid w) ! cid) = c_timer (calls w ! cid)) \<and>
   (valid_config conv opts w \<and> noble_state w = ''poweredOn'' \<and>
    getOpt opts addresses (JArray (next_ref w)) = JArray r \<and>
    ((arrays w)(next_ref w := [])) r \<noteq> [] \<and>
    (\<forall>v \<in> set (((arrays w)(next_ref w := [])) r).
        normaliseAddress (the_string v) \<in> fst ` set (devices w)) \<longrightarrow>
      fst (discover conv opts w) = Inr (length (calls w)) \<and>
      c_phase (calls (snd (discover conv opts w)) ! length (calls w)) = Stopping \<and>
      noble_calls (snd (discover conv opts w)) = noble_calls w @ [StopScanning] \<and>
      discover_listeners (snd (discover conv opts w)) = discover_listeners w \<and>
      \<not> c_timer (calls (snd (discover conv opts w)) ! length (calls w)))"
proof -
  have p1: "\<exists>ys. devices (exec_all conv ins w) = devices w @ ys"
    by (rule exec_all_devices)
  have p2: "cid < length (calls w) \<and> c_phase (calls w ! cid) = Stopping \<longrightarrow>
      c_phase (calls (noble_step ScanStop w) ! cid) = Resolved (Object_values (devices w))"
    using scan_stop_resolves by blast
  have p3: "set (Object_values (devices w)) = snd ` set (devices w)"
    by (rule Object_values_set)
  have p4: "length (Object_values (devices w)) = length (devices w)"
    by (rule Object_values_length)
  have p5: "cid < length (calls (exec_all conv ins w)) \<and>
    c_phase (calls (exec_all conv ins w) ! cid) = Stopping \<longrightarrow>
      (\<exists>ds. c_phase (calls (noble_step ScanStop (exec_all conv ins w)) ! cid) = Resolved ds \<and>
            snd ` set (devices w) \<subseteq> set ds)"
    using resolved_with_earlier by blast
  have p6: "cid < length (calls w) \<and> c_addresses (calls w ! cid) \<noteq> [] \<and>
    (\<forall>a \<in> set (c_addresses (calls w ! cid)). a \<in> fst ` set (devices w)) \<longrightarrow>
      c_phase (calls (startScan cid w) ! cid) = Stopping \<and>
      noble_calls (startScan cid w) = noble_calls w @ [StopScanning] \<and>
      discover_listeners (startScan cid w) = discover_listeners w \<and>
      c_timer (calls (startScan cid w) ! cid) = c_timer (calls w ! cid)"
    using startScan_all_known [of cid w] by blast
  have p7: "valid_config conv opts w \<and> noble_state w = ''poweredOn'' \<and>
    getOpt opts addresses (JArray (next_ref w)) = JArray r \<and>
    ((arrays w)(next_ref w := [])) r \<noteq> [] \<and>
    (\<forall>v \<in> set (((arrays w)(next_ref w := [])) r).
        normaliseAddress (the_string v) \<in> fst ` set (devices w)) \<longrightarrow>
      fst (discover conv opts w) = Inr (length (calls w)) \<and>
      c_phase (calls (snd (discover conv opts w)) ! length (calls w)) = Stopping \<and>
      noble_calls (snd (discover conv opts w)) = noble_calls w @ [StopScanning] \<and>
      discover_listeners (snd (discover conv opts w)) = discover_listeners w \<and>
      \<not> c_timer (calls (snd (discover conv opts w)) ! length (calls w))"
    using discover_all_known [of conv opts w r] by blast
  show ?thesis
    using p1 p2 p3 p4 p5 p6 p7 by (intro conjI) assumption+
qed

lemma found_A_facts:
  "length (calls found_A) = 1" "c_phase (calls found_A ! 0) = Stopping"
  "devices found_A = [(addr_A, new_device (advert addr_A))]"
  "Object_values (devices found_A) = [new_device (advert addr_A)]"
  by code_simp+

lemma resolved_A_facts:
  "valid_config conv_NaN (Some options_A) resolved_A"
  "noble_state resolved_A = ''poweredOn''"
  "getOpt (Some options_A) addresses (JArray (next_ref resolved_A)) = JArray 0"
  "((arrays resolved_A)(next_ref resolved_A := [])) 0 = [JString addr_A]"
  "normaliseAddress addr_A = addr_A"
  "devices resolved_A = [(addr_A, new_device (advert addr_A))]"
  "length (calls resolved_A) = 1"
  "c_phase (calls resolved_A ! 0) = Resolved [new_device (advert addr_A)]"
  "noble_calls resolved_A = [On_discover, StartScanning, StopScanning]"
  "discover_listeners resolved_A = [0]"
  by code_simp+

lemma waiting_A_facts:
  "length (calls waiting_A) = 2" "c_phase (calls waiting_A ! 1) = AwaitPower"
  "c_addresses (calls waiting_A ! 1) = [addr_A]"
  "devices waiting_A = [(addr_A, new_device (advert addr_A))]"
  "noble_calls waiting_A = [On_discover, StartScanning, StopScanning, On_stateChange]"
  "discover_listeners waiting_A = [0]" "\<not> c_timer (calls waiting_A ! 1)"
  "c_phase (calls (noble_step (StateChange ''poweredOn'') waiting_A) ! 1) = Stopping"
  "noble_calls (noble_step (StateChange ''poweredOn'') waiting_A)
     = [On_discover, StartScanning, StopScanning, On_stateChange, StopScanning]"
  by code_simp+

lemma second_call_facts:
  "length (calls (exec_all conv_NaN [Call (Some options_A)] resolved_A)) = 2"
  "c_phase (calls (exec_all conv_NaN [Call (Some options_A)] resolved_A) ! 1) = Stopping"
  "devices (exec_all conv_NaN [Call (Some options_A)] resolved_A)
     = [(addr_A, new_device (advert addr_A))]"
  by code_simp+

text \<open>
  The theorem of C9 at three worlds. In \<open>found_A\<close> a call has found A and its scan is
  stopping: it is resolved with the device of A. In \<open>resolved_A\<close> that call is resolved
  and a later call asks for A: it goes straight to stopping the scan, and is resolved
  with the device the earlier call recorded. In \<open>waiting_A\<close> a later call for A waits
  for the adapter: once its scan is started (call 1) it resolves at once.
\<close>

theorem devices_never_cleared_witness:
  "0 < length (calls found_A) \<and> c_phase (calls found_A ! 0) = Stopping \<and>
   c_phase (calls (noble_step ScanStop found_A) ! 0) = Resolved [new_device (advert addr_A)] \<and>
   valid_config conv_NaN (Some options_A) resolved_A \<and>
   noble_state resolved_A = ''poweredOn'' \<and>
   getOpt (Some options_A) addresses (JArray (next_ref resolved_A)) = JArray 0 \<and>
   ((arrays resolved_A)(next_ref resolved_A := [])) 0 = [JString addr_A] \<and>
   devices resolved_A = [(addr_A, new_device (advert addr_A))] \<and>
   length (calls resolved_A) = 1 \<and>
   fst (discover conv_NaN (Some options_A) resolved_A) = Inr 1 \<and>
   c_phase (calls (snd (discover conv_NaN (Some options_A) resolved_A)) ! 1) = Stopping \<and>
   noble_calls (snd (discover conv_NaN (Some options_A) resolved_A))
     = [On_discover, StartScanning, StopScanning, StopScanning] \<and>
   discover_listeners (snd (discover conv_NaN (Some options_A) resolved_A)) = [0] \<and>
   \<not> c_timer (calls (snd (discover conv_NaN (Some options_A) resolved_A)) ! 1) \<and>
   1 < length (calls (exec_all conv_NaN [Call (Some options_A)] resolved_A)) \<and>
   c_phase (calls (exec_all conv_NaN [Call (Some options_A)] resolved_A) ! 1) = Stopping \<and>
   (\<exists>ds. c_phase (calls (noble_step ScanStop
             (exec_all conv_NaN [Call (Some options_A)] resolved_A)) ! 1) = Resolved ds \<and>
         new_device (advert addr_A) \<in> set ds) \<and>
   1 < length (calls waiting_A) \<and> c_addresses (calls waiting_A ! 1) = [addr_A] \<and>
   devices waiting_A = [(addr_A, new_device (advert addr_A))] \<and>
   c_phase (calls waiting_A ! 1) = AwaitPower \<and>
   c_phase (calls (startScan 1 waiting_A) ! 1) = Stopping \<and>
   noble_calls (startScan 1 waiting_A)
     = [On_discover, StartScanning, StopScanning, On_stateChange, StopScanning] \<and>
   discover_listeners (startScan 1 waiting_A) = [0] \<and>
   \<not> c_timer (calls (startScan 1 waiting_A) ! 1) \<and>
   c_phase (calls (noble_step (StateChange ''poweredOn'') waiting_A) ! 1) = Stopping \<and>
   (\<exists>ys. devices (exec_all conv_NaN [Event ScanStop, Call (Some options_A)] found_A)
           = devices found_A @ ys)"
proof -
  note f = found_A_facts
  note r = resolved_A_facts
  note g = waiting_A_facts
  note s = second_call_facts
  note F = devices_never_cleared
    [of conv_NaN "[Event ScanStop, Call (Some options_A)]" found_A 0]
  note R = devices_never_cleared
    [of conv_NaN "[Call (Some options_A)]" resolved_A 1 "Some options_A" 0]
  note G = devices_never_cleared [of _ _ waiting_A 1]
  have l: "0 < length (calls found_A)" using f(1) by simp
  have w1: "\<exists>ys. devices (exec_all conv_NaN [Event ScanStop, Call (Some options_A)] found_A)
           = devices found_A @ ys"
    using F by blast
  have "c_phase (calls (noble_step ScanStop found_A) ! 0)
          = Resolved (Object_values (devices found_A))"
    using F l f(2) by blast
  then have w2: "c_phase (calls (noble_step ScanStop found_A) ! 0)
          = Resolved [new_device (advert addr_A)]"
    by (simp add: f(4))
  have k: "\<forall>v \<in> set (((arrays resolved_A)(next_ref resolved_A := [])) 0).
             normaliseAddress (the_string v) \<in> fst ` set (devices resolved_A)"
    unfolding r(4) r(6) by (simp add: r(5))
  have n: "((arrays resolved_A)(next_ref resolved_A := [])) 0 \<noteq> []"
    unfolding r(4) by simp
  from R r(1,2,3) n k
  have "fst (discover conv_NaN (Some options_A) resolved_A) = Inr (length (calls resolved_A)) \<and>
      c_phase (calls (snd (discover conv_NaN (Some options_A) resolved_A))
                 ! length (calls resolved_A)) = Stopping \<and>
      noble_calls (snd (discover conv_NaN (Some options_A) resolved_A))
        = noble_calls resolved_A @ [StopScanning] \<and>
      discover_listeners (snd (discover conv_NaN (Some options_A) resolved_A))
        = discover_listeners resolved_A \<and>
      \<not> c_timer (calls (snd (discover conv_NaN (Some options_A) resolved_A))
                 ! length (calls resolved_A))"
    by blast
  then have w3: "fst (discover conv_NaN (Some options_A) resolved_A) = Inr 1"
    "c_phase (calls (snd (discover conv_NaN (Some options_A) resolved_A)) ! 1) = Stopping"
    "noble_calls (snd (discover conv_NaN (Some options_A) resolved_A))
       = [On_discover, StartScanning, StopScanning, StopScanning]"
    "discover_listeners (snd (discover conv_NaN (Some options_A) resolved_A)) = [0]"
    "\<not> c_timer (calls (snd (discover conv_NaN (Some options_A) resolved_A)) ! 1)"
    using r(7,9,10) by simp_all
  have l2: "1 < length (calls (exec_all conv_NaN [Call (Some options_A)] resolved_A))"
    by (simp add: s(1))
  from R l2 s(2)
  obtain ds where ds:
    "c_phase (calls (noble_step ScanStop
        (exec_all conv_NaN [Call (Some options_A)] resolved_A)) ! 1) = Resolved ds"
    "snd ` set (devices resolved_A) \<subseteq> set ds"
    by blast
  from ds(2) have "new_device (advert addr_A) \<in> set ds" by (simp add: r(6))
  with ds(1) have w4: "\<exists>ds. c_phase (calls (noble_step ScanStop
             (exec_all conv_NaN [Call (Some options_A)] resolved_A)) ! 1) = Resolved ds \<and>
         new_device (advert addr_A) \<in> set ds"
    by blast
  have l3: "1 < length (calls waiting_A)" by (simp add: g(1))
  have n3: "c_addresses (calls waiting_A ! 1) \<noteq> []" unfolding g(3) by simp
  have k3: "\<forall>a \<in> set (c_addresses (calls waiting_A ! 1)). a \<in> fst ` set (devices waiting_A)"
    unfolding g(3) g(4) by simp
  from G l3 n3 k3
  have "c_phase (calls (startScan 1 waiting_A) ! 1) = Stopping \<and>
      noble_calls (startScan 1 waiting_A) = noble_calls waiting_A @ [StopScanning] \<and>
      discover_listeners (startScan 1 waiting_A) = discover_listeners waiting_A \<and>
      c_timer (calls (startScan 1 waiting_A) ! 1) = c_timer (calls waiting_A ! 1)"
    by blast
  then have w5: "c_phase (calls (startScan 1 waiting_A) ! 1) = Stopping"
    "noble_calls (startScan 1 waiting_A)
       = [On_discover, StartScanning, StopScanning, On_stateChange, StopScanning]"
    "discover_listeners (startScan 1 waiting_A) = [0]"
    "\<not> c_timer (calls (startScan 1 waiting_A) ! 1)"
    using g(5,6,7) by simp_all
  show ?thesis
    using l f(2) w2 r(1,2,3,4,6,7) w3 l2 s(2) w4 l3 g(3,4,2,8) w5 w1
    by (intro conjI) assumption+
qed

section \<open>Discovery: stopping early\<close>

text \<open>
  With the listener of one call only, the scan stops with the advertisement that makes
  the allow-list complete: the timer is cleared and the adapter is asked to stop.
\<close>

lemma sole_listener_early_stop:
  assumes "discover_listeners w = [cid]" and "cid < length (calls w)"
    and "c_phase (calls w ! cid) = Scanning" and "c_addresses (calls w ! cid) \<noteq> []"
    and "\<not> checkDiscovered (c_addresses (calls w ! cid)) (devices w)"
    and "checkDiscovered (c_addresses (calls w ! cid)) (devices (noble_step (Discover p) w))"
  shows "c_phase (calls (noble_step (Discover p) w) ! cid) = Stopping"
    and "\<not> c_timer (calls (noble_step (Discover p) w) ! cid)"
    and "noble_calls (noble_step (Discover p) w) = noble_calls w @ [StopScanning]"
proof -
  let ?a = "normaliseAddress (p_address p)"
  let ?w1 = "w\<lparr>devices := devices w @ [(?a, new_device p)]\<rparr>"
  let ?w2 = "update_call cid (\<lambda>c. c\<lparr>c_timer := False\<rparr>) ?w1"
  have s: "noble_step (Discover p) w = on_discover p cid w"
    using assms(1) by (simp add: noble_step_def)
  have changed: "devices (on_discover p cid w) \<noteq> devices w"
    using assms(5,6) s by auto
  have c: "checkDiscovered (c_addresses (calls w ! cid)) (devices ?w1)"
    using assms(5,6) s
    by (auto simp: on_discover_def Let_def split: if_splits)
  have e: "on_discover p cid w = scan_resolved cid ?w2"
    using changed c assms(4)
    by (auto simp: on_discover_def Let_def split: if_splits)
  have p2: "c_phase (calls ?w2 ! cid) = Scanning" "c_timer (calls ?w2 ! cid) = False"
    using assms(2,3) by (simp_all add: update_call_def)
  have l2: "cid < length (calls ?w2)" using assms(2) by simp
  show "c_phase (calls (noble_step (Discover p) w) ! cid) = Stopping"
    using p2 l2 by (simp add: s e scan_resolved_def update_call_nth)
  show "\<not> c_timer (calls (noble_step (Discover p) w) ! cid)"
    using p2 l2 by (simp add: s e scan_resolved_def update_call_nth)
  show "noble_calls (noble_step (Discover p) w) = noble_calls w @ [StopScanning]"
    using p2 by (simp add: s e scan_resolved_def)
qed

text \<open>
  The scenario of the specification on a new engine: addresses A and B, unknown addresses
  ignored, advertisements of A, B and C. The scan stops with B, and the call is resolved
  with the devices of A and B.
\<close>

lemma allow_list_scenario:
  "c_addresses (calls scenario_AB ! 0) = [addr_A, addr_B] \<and>
   map fst (devices scenario_AB) = [addr_A, addr_B] \<and>
   c_phase (calls scenario_AB ! 0) = Stopping \<and> \<not> c_timer (calls scenario_AB ! 0) \<and>
   noble_calls scenario_AB = [On_discover, StartScanning, StopScanning] \<and>
   c_phase (calls (exec_all conv_NaN [Event (Discover (advert addr_C)), Event ScanStop]
                     scenario_AB) ! 0)
     = Resolved [new_device (advert addr_A), new_device (advert addr_B)]"
  by code_simp


text \<open>
  C7 does not hold once an earlier call has left its listener on the adapter's
  \<open>discover\<close> event (the code never removes it). Here a first call without addresses
  ran its duration and was resolved; a second call asks for A; A advertises. The first
  call's listener records A, so the second call's listener finds the device already
  there and does not run its check: every listed address has a recorded device, yet the
  second call is still scanning and its timer is still pending.
\<close>

theorem stale_listener_no_early_stop:
  "c_addresses (calls stale_listener ! 1) = [addr_A] \<and>
   map fst (devices stale_listener) = [addr_A] \<and>
   checkDiscovered (c_addresses (calls stale_listener ! 1)) (devices stale_listener) \<and>
   discover_listeners stale_listener = [0, 1] \<and>
   c_phase (calls stale_listener ! 1) = Scanning \<and>
   c_timer (calls stale_listener ! 1) \<and>
   noble_calls stale_listener
     = [On_discover, StartScanning, StopScanning, On_discover, StartScanning]"
  by code_simp

end
